theory Spec2Isabelle
  imports
    Complex_Main
    "HOL-Library.AList"
    "HOL-Library.Char_ord"
    "HOL-Library.List_Lexorder"
    "HOL-Library.Product_Lexorder"
    "HOL-Library.Multiset"
    "HOL-Library.Sublist"
begin

section \<open>Errors\<close>

text \<open>
  The Python exceptions that the modelled functions of \<^verbatim>\<open>tebreak.py\<close> can raise.
  A function that can raise returns \<open>py_error + 'a\<close>, with \<open>Inl\<close> for the exception.
\<close>

datatype py_error =
  AssertionError | KeyError | ValueError | IndexError | ZeroDivisionError | OverflowError

section \<open>Floats\<close>

text \<open>
  A Python float is an IEEE 754 double. Its value is a rational number; an operation
  returns the double nearest to the exact result, ties to the even significand.
  \<open>round_half_even p q\<close> is the integer nearest to \<open>p / q\<close> for a positive \<open>q\<close>.
\<close>

definition round_half_even :: "int \<Rightarrow> int \<Rightarrow> int" where
  "round_half_even p q =
     (let f = p div q; r = p mod q
      in if 2 * r < q then f
         else if q < 2 * r then f + 1
         else if even f then f else f + 1)"

definition pow2 :: "int \<Rightarrow> rat" where
  "pow2 e = (if 0 \<le> e then 2 ^ nat e else 1 / 2 ^ nat (- e))"

text \<open>
  \<open>double_norm p q e\<close> scales the positive fraction \<open>p / q\<close> by powers of two, keeping
  \<open>(p / q) * 2 ^ e\<close>, until it lies in \<open>[2 ^ 52, 2 ^ 53)\<close>, the range of a significand
  of 53 bits; the exponent does not go below \<open>-1074\<close>, that of the subnormal doubles.
\<close>

function double_norm :: "int \<Rightarrow> int \<Rightarrow> int \<Rightarrow> int \<times> int \<times> int" where
  "double_norm p q e =
     (if p < 4503599627370496 * q \<and> - 1074 < e then double_norm (2 * p) q (e - 1)
      else if 0 < q \<and> 9007199254740992 * q \<le> p then double_norm p (2 * q) (e + 1)
      else (p, q, e))"
  by pat_completeness auto
termination
proof (relation "(\<lambda>(p, q, e). if 0 < q \<and> 9007199254740992 * q \<le> p
                                then nat (p - 9007199254740992 * q + 1) else 0) <*mlex*>
                 measure (\<lambda>(p, q, e). nat (e + 1074))")
  show "wf ((\<lambda>(p::int, q::int, e::int). if 0 < q \<and> 9007199254740992 * q \<le> p
                                then nat (p - 9007199254740992 * q + 1) else 0) <*mlex*>
                 measure (\<lambda>(p, q, e). nat (e + 1074)))"
    by (simp add: wf_mlex)
next
  fix p q e :: int
  assume "p < 4503599627370496 * q \<and> - 1074 < e"
  then show "((2 * p, q, e - 1), p, q, e) \<in> (\<lambda>(p, q, e). if 0 < q \<and> 9007199254740992 * q \<le> p
                                then nat (p - 9007199254740992 * q + 1) else 0) <*mlex*>
                 measure (\<lambda>(p, q, e). nat (e + 1074))"
    by (auto simp: mlex_iff)
next
  fix p q e :: int
  assume "\<not> (p < 4503599627370496 * q \<and> - 1074 < e)" "0 < q \<and> 9007199254740992 * q \<le> p"
  then show "((p, 2 * q, e + 1), p, q, e) \<in> (\<lambda>(p, q, e). if 0 < q \<and> 9007199254740992 * q \<le> p
                                then nat (p - 9007199254740992 * q + 1) else 0) <*mlex*>
                 measure (\<lambda>(p, q, e). nat (e + 1074))"
    by (auto simp: mlex_iff)
qed

declare double_norm.simps [simp del]

text \<open>
  The significand and the exponent of the double nearest to a rational number that is
  not zero: the number rounds to \<open>m * 2 ^ e\<close> in magnitude.
\<close>

definition double_parts :: "rat \<Rightarrow> int \<times> int" where
  "double_parts x =
     (case quotient_of \<bar>x\<bar> of
        (p, q) \<Rightarrow> (case double_norm p q 0 of (s, t, e) \<Rightarrow> (round_half_even s t, e)))"

text \<open>
  The double nearest to a rational number. The largest finite double is
  \<open>(2 ^ 53 - 1) * 2 ^ 971\<close>; a number that rounds beyond it rounds to no finite
  double. Converting such an integer to a float, or dividing two integers with such a
  quotient, raises \<^verbatim>\<open>OverflowError\<close>; a float operation with such a result yields an
  infinity, which raises \<^verbatim>\<open>OverflowError\<close> when \<^verbatim>\<open>int()\<close> is applied to it. In the
  expressions modelled every float ends in \<^verbatim>\<open>int()\<close>, so both are the same error.
\<close>

definition py_float :: "rat \<Rightarrow> py_error + rat" where
  "py_float x =
     (if x = 0 then Inr 0
      else case double_parts x of
             (m, e) \<Rightarrow>
               if 971 < e \<or> (e = 971 \<and> 9007199254740992 \<le> m) then Inl OverflowError
               else Inr (sgn x * of_int m * pow2 e))"

text \<open>\<^verbatim>\<open>int(w)\<close> of a finite float: truncation towards zero.\<close>

definition py_int :: "rat \<Rightarrow> int" where
  "py_int w = (if w < 0 then - \<lfloor>- w\<rfloor> else \<lfloor>w\<rfloor>)"

text \<open>
  \<^verbatim>\<open>int(a / b)\<close> on integers: the true division of two integers is the double
  nearest to the exact quotient; \<^verbatim>\<open>b = 0\<close> raises.
\<close>

definition py_int_truediv :: "int \<Rightarrow> int \<Rightarrow> py_error + int" where
  "py_int_truediv a b =
     (if b = 0 then Inl ZeroDivisionError
      else case py_float (of_int a / of_int b) of
             Inl e \<Rightarrow> Inl e
           | Inr w \<Rightarrow> Inr (py_int w))"

section \<open>Genome: padding and chunking\<close>

text \<open>
  \<^verbatim>\<open>Genome.chrlen\<close> is a dict from chromosome name to length; its key order
  (insertion order) drives the chunking loop, so it is an association list.
  \<^verbatim>\<open>Genome.bp\<close> is the running total of the lengths read.
\<close>

type_synonym interval = "string \<times> int \<times> int"

record Genome =
  chrlen :: "(string \<times> int) list"
  bp :: int

text \<open>
  \<^verbatim>\<open>Genome.__init__\<close>, from the parsed non-comment lines of the genome file
  (chromosome, length): skipped chromosomes are dropped, a repeated chromosome
  overwrites its length in place and is added to \<open>bp\<close> again.
\<close>

fun Genome_init_loop :: "(string \<times> int) list \<Rightarrow> string list \<Rightarrow> Genome \<Rightarrow> Genome" where
  "Genome_init_loop [] skip_chroms g = g"
| "Genome_init_loop ((chrom, len) # rest) skip_chroms g =
     (if chrom \<notin> set skip_chroms
      then Genome_init_loop rest skip_chroms
             (g\<lparr>chrlen := AList.update chrom len (chrlen g), bp := bp g + len\<rparr>)
      else Genome_init_loop rest skip_chroms g)"

definition Genome_init :: "(string \<times> int) list \<Rightarrow> string list \<Rightarrow> Genome" where
  "Genome_init lines skip_chroms = Genome_init_loop lines skip_chroms \<lparr>chrlen = [], bp = 0\<rparr>"

text \<open>
  \<^verbatim>\<open>Genome.addpad\<close>: the start is lowered by the pad and raised to 0 when negative,
  the end is raised by the pad and lowered to the chromosome length when beyond it.
  The assertion on the chromosome comes after the two additions and before the clamps.
\<close>

definition addpad :: "Genome \<Rightarrow> interval \<Rightarrow> int \<Rightarrow> py_error + interval" where
  "addpad g iv pad =
     (case iv of (chrom, start, end) \<Rightarrow>
        let start1 = start - pad;
            end1 = end + pad
        in case map_of (chrlen g) chrom of
             None \<Rightarrow> Inl AssertionError
           | Some len \<Rightarrow>
               Inr (chrom,
                    (if start1 < 0 then 0 else start1),
                    (if end1 > len then len else end1)))"

text \<open>
  The state of the loops of \<^verbatim>\<open>Genome.chunk\<close>: how much of the current chunk is
  still to fill, the intervals of the chunk being filled, and the finished chunks.
\<close>

record chunk_state =
  chunkleft :: int
  intervals :: "interval list"
  chunks :: "interval list list"

text \<open>
  The inner \<^verbatim>\<open>while lenleft > 0\<close> loop of \<^verbatim>\<open>Genome.chunk\<close> for one chromosome
  that does not fit into what is left of the current chunk. With a chunk length of 0
  or less the loop never ends; not returning is the value \<open>None\<close>.
\<close>

partial_function (option) chunk_while ::
  "Genome \<Rightarrow> int \<Rightarrow> int \<Rightarrow> string \<Rightarrow> int \<Rightarrow> int \<Rightarrow> chunk_state \<Rightarrow> (py_error + chunk_state) option"
where
  "chunk_while g chunklen pad chrom len lenleft st =
     (if lenleft > 0 then
        (if lenleft \<ge> chunkleft st then
           (case addpad g (chrom, len - lenleft, len - lenleft + chunkleft st) pad of
              Inl e \<Rightarrow> Some (Inl e)
            | Inr iv \<Rightarrow>
                chunk_while g chunklen pad chrom len (lenleft - chunkleft st)
                  \<lparr>chunkleft = chunklen,
                   intervals = [],
                   chunks = chunks st @ [intervals st @ [iv]]\<rparr>)
         else
           (case addpad g (chrom, len - lenleft, len) pad of
              Inl e \<Rightarrow> Some (Inl e)
            | Inr iv \<Rightarrow>
                chunk_while g chunklen pad chrom len (lenleft - lenleft)
                  (st\<lparr>chunkleft := chunkleft st - lenleft,
                      intervals := intervals st @ [iv]\<rparr>)))
      else Some (Inr st))"

declare chunk_while.simps [code]

text \<open>
  The outer \<^verbatim>\<open>for chrom in chromlist\<close> loop. \<^verbatim>\<open>self.chrlen[chrom]\<close> raises
  \<^verbatim>\<open>KeyError\<close> on a missing key (the keys come from the table itself).
\<close>

fun chunk_for ::
  "Genome \<Rightarrow> int \<Rightarrow> int \<Rightarrow> string list \<Rightarrow> chunk_state \<Rightarrow> (py_error + chunk_state) option"
where
  "chunk_for g chunklen pad [] st = Some (Inr st)"
| "chunk_for g chunklen pad (chrom # rest) st =
     (case map_of (chrlen g) chrom of
        None \<Rightarrow> Some (Inl KeyError)
      | Some len \<Rightarrow>
          if len \<le> chunkleft st then
            (case addpad g (chrom, 0, len) pad of
               Inl e \<Rightarrow> Some (Inl e)
             | Inr iv \<Rightarrow>
                 if chunkleft st - len = 0
                 then chunk_for g chunklen pad rest
                        \<lparr>chunkleft = chunklen,
                         intervals = [],
                         chunks = chunks st @ [intervals st @ [iv]]\<rparr>
                 else chunk_for g chunklen pad rest
                        (st\<lparr>chunkleft := chunkleft st - len,
                            intervals := intervals st @ [iv]\<rparr>))
          else
            (case chunk_while g chunklen pad chrom len len st of
               None \<Rightarrow> None
             | Some (Inl e) \<Rightarrow> Some (Inl e)
             | Some (Inr st') \<Rightarrow> chunk_for g chunklen pad rest st'))"

text \<open>
  \<^verbatim>\<open>Genome.chunk(n, seed, sorted, pad, flatten)\<close>. The seed only seeds the random
  generator, which the method never draws from, so it is no argument of the model.
  The result is the list of chunks (\<^verbatim>\<open>flatten=False\<close>) or their concatenation
  (\<^verbatim>\<open>flatten=True\<close>). The intervals collected for a chunk that was not filled when the
  chromosomes ran out are in the final state and are not returned, as in the source.
\<close>

datatype chunk_result = Chunks "interval list list" | Flat "interval list"

definition chunk :: "Genome \<Rightarrow> int \<Rightarrow> bool \<Rightarrow> int \<Rightarrow> bool \<Rightarrow> (py_error + chunk_result) option" where
  "chunk g n sorted_flag pad flatten =
     (case py_int_truediv (bp g) n of
        Inl e \<Rightarrow> Some (Inl e)
      | Inr chunklen \<Rightarrow>
          let chromlist = map fst (chrlen g);
              chromlist1 = (if sorted_flag then sort chromlist else chromlist)
          in case chunk_for g chunklen pad chromlist1
                    \<lparr>chunkleft = chunklen, intervals = [], chunks = []\<rparr> of
               None \<Rightarrow> None
             | Some (Inl e) \<Rightarrow> Some (Inl e)
             | Some (Inr st) \<Rightarrow>
                 Some (Inr (if flatten then Flat (concat (chunks st)) else Chunks (chunks st))))"

section \<open>Reads, split reads and clusters\<close>

text \<open>
  The fields of a \<^verbatim>\<open>pysam.AlignedSegment\<close> that the modelled code reads.
  \<open>positions\<close> is the list of reference positions of the aligned bases
  (\<^verbatim>\<open>read.positions\<close>, \<^verbatim>\<open>read.get_reference_positions()\<close>).
\<close>

record AlignedSegment =
  seq :: string
  qual :: string
  tid :: int
  reference_start :: int
  query_alignment_start :: int
  positions :: "int list"
  qstart :: int
  qend :: int
  rlen :: int

text \<open>
  \<^verbatim>\<open>SplitRead\<close>, without its uuid, file name and clip length, which no modelled
  function reads.
\<close>

record SplitRead =
  sr_chrom :: string
  sr_read :: AlignedSegment
  sr_minqual :: int
  sr_breakleft :: bool
  sr_breakright :: bool
  sr_breakpos :: int

text \<open>
  \<^verbatim>\<open>SplitRead.__init__\<close>: the breakpoint is the last aligned reference position
  when the clip is on the right, the first one otherwise; indexing an empty list of
  positions raises \<^verbatim>\<open>IndexError\<close>.
\<close>

definition SplitRead_init :: "string \<Rightarrow> AlignedSegment \<Rightarrow> int \<Rightarrow> py_error + SplitRead" where
  "SplitRead_init chrom read minqual =
     (if positions read = [] then Inl IndexError
      else if qstart read < rlen read - qend read
      then Inr \<lparr>sr_chrom = chrom, sr_read = read, sr_minqual = minqual,
                sr_breakleft = False, sr_breakright = True,
                sr_breakpos = last (positions read)\<rparr>
      else Inr \<lparr>sr_chrom = chrom, sr_read = read, sr_minqual = minqual,
                sr_breakleft = True, sr_breakright = False,
                sr_breakpos = hd (positions read)\<rparr>)"

text \<open>
  \<^verbatim>\<open>SplitRead.__gt__\<close> orders split reads by chromosome, then breakpoint;
  \<^verbatim>\<open>list.sort()\<close> is a stable sort by that order, which is \<open>sort_key\<close> on the pair
  under the lexicographic order.
\<close>

definition SplitRead_key :: "SplitRead \<Rightarrow> string \<times> int" where
  "SplitRead_key r = (sr_chrom r, sr_breakpos r)"

text \<open>
  \<^verbatim>\<open>ReadCluster\<close> and its subclass \<^verbatim>\<open>SplitCluster\<close> (which adds methods, no
  fields), without the uuid.
\<close>

record ReadCluster =
  cl_reads :: "SplitRead list"
  cl_start :: int
  cl_end :: int
  cl_median :: int
  cl_chrom :: "string option"

text \<open>\<^verbatim>\<open>max\<close> and \<^verbatim>\<open>min\<close> of a list raise \<^verbatim>\<open>ValueError\<close> on the empty list.\<close>

definition py_max :: "int list \<Rightarrow> py_error + int" where
  "py_max xs = (case xs of [] \<Rightarrow> Inl ValueError | x # ys \<Rightarrow> Inr (fold max ys x))"

definition py_min :: "int list \<Rightarrow> py_error + int" where
  "py_min xs = (case xs of [] \<Rightarrow> Inl ValueError | x # ys \<Rightarrow> Inr (fold min ys x))"

text \<open>
  \<^verbatim>\<open>int(np.median(positions))\<close> on a non-empty list of integers: the middle element
  of the sorted list, or the mean of the two middle ones truncated towards zero.
\<close>

definition int_np_median :: "int list \<Rightarrow> int" where
  "int_np_median xs =
     (let s = sort xs; n = length s
      in if odd n then s ! (n div 2)
         else (let t = s ! (n div 2 - 1) + s ! (n div 2)
               in if t < 0 then - (\<bar>t\<bar> div 2) else t div 2))"

text \<open>
  \<^verbatim>\<open>ReadCluster.add_read\<close>: append, fix the chromosome on the first read, assert
  the chromosome, then recompute: \<open>start\<close> from \<^verbatim>\<open>max(positions)\<close>, \<open>end\<close> from
  \<^verbatim>\<open>min(positions)\<close>, \<open>median\<close> from the median of all aligned positions.
\<close>

definition add_read :: "ReadCluster \<Rightarrow> SplitRead \<Rightarrow> py_error + ReadCluster" where
  "add_read c r =
     (let reads1 = cl_reads c @ [r];
          chrom1 = (case cl_chrom c of None \<Rightarrow> Some (sr_chrom r) | Some x \<Rightarrow> Some x)
      in if chrom1 \<noteq> Some (sr_chrom r) then Inl AssertionError
         else
           let ps = concat (map (\<lambda>x. positions (sr_read x)) reads1);
               reads2 = sort_key SplitRead_key reads1
           in case py_max ps of
                Inl e \<Rightarrow> Inl e
              | Inr mx \<Rightarrow>
                  (case py_min ps of
                     Inl e \<Rightarrow> Inl e
                   | Inr mn \<Rightarrow>
                       Inr \<lparr>cl_reads = reads2, cl_start = mx, cl_end = mn,
                            cl_median = int_np_median ps, cl_chrom = chrom1\<rparr>))"

text \<open>
  \<^verbatim>\<open>ReadCluster.__init__(firstread)\<close>, which \<^verbatim>\<open>SplitCluster\<close> inherits: an empty
  cluster, to which the first read, when given, is added with \<^verbatim>\<open>add_read\<close>.
\<close>

definition ReadCluster_init :: "SplitRead option \<Rightarrow> py_error + ReadCluster" where
  "ReadCluster_init firstread =
     (let c = \<lparr>cl_reads = [], cl_start = 0, cl_end = 0, cl_median = 0, cl_chrom = None\<rparr>
      in case firstread of None \<Rightarrow> Inr c | Some r \<Rightarrow> add_read c r)"

text \<open>
  \<^verbatim>\<open>SplitCluster.add_splitread\<close>: append, fix and assert the chromosome, sort, then
  \<open>start\<close>, \<open>end\<close> and \<open>median\<close> are the breakpoints of the first, the last and the
  middle read (index \<^verbatim>\<open>int(len/2)\<close>) of the sorted list.
\<close>

definition add_splitread :: "ReadCluster \<Rightarrow> SplitRead \<Rightarrow> py_error + ReadCluster" where
  "add_splitread c sr =
     (let reads1 = cl_reads c @ [sr];
          chrom1 = (case cl_chrom c of None \<Rightarrow> Some (sr_chrom sr) | Some x \<Rightarrow> Some x)
      in if chrom1 \<noteq> Some (sr_chrom sr) then Inl AssertionError
         else
           let reads2 = sort_key SplitRead_key reads1
           in Inr \<lparr>cl_reads = reads2,
                   cl_start = sr_breakpos (hd reads2),
                   cl_end = sr_breakpos (last reads2),
                   cl_median = sr_breakpos (reads2 ! (length reads2 div 2)),
                   cl_chrom = chrom1\<rparr>)"

text \<open>
  \<^verbatim>\<open>build_sr_clusters\<close>: one pass; the list of clusters is the state, its last
  element the current cluster.
\<close>

fun build_sr_clusters_loop ::
  "int \<Rightarrow> SplitRead list \<Rightarrow> ReadCluster list \<Rightarrow> py_error + ReadCluster list"
where
  "build_sr_clusters_loop searchdist [] clusters = Inr clusters"
| "build_sr_clusters_loop searchdist (sr # rest) clusters =
     (if length clusters = 0 then
        (case ReadCluster_init (Some sr) of
           Inl e \<Rightarrow> Inl e
         | Inr c \<Rightarrow> build_sr_clusters_loop searchdist rest (clusters @ [c]))
      else if cl_chrom (last clusters) \<noteq> Some (sr_chrom sr) then
        (case ReadCluster_init (Some sr) of
           Inl e \<Rightarrow> Inl e
         | Inr c \<Rightarrow> build_sr_clusters_loop searchdist rest (clusters @ [c]))
      else if \<bar>cl_median (last clusters) - sr_breakpos sr\<bar> > searchdist then
        (case ReadCluster_init (Some sr) of
           Inl e \<Rightarrow> Inl e
         | Inr c \<Rightarrow> build_sr_clusters_loop searchdist rest (clusters @ [c]))
      else
        (case add_splitread (last clusters) sr of
           Inl e \<Rightarrow> Inl e
         | Inr c \<Rightarrow> build_sr_clusters_loop searchdist rest (butlast clusters @ [c])))"

definition build_sr_clusters :: "SplitRead list \<Rightarrow> int \<Rightarrow> py_error + ReadCluster list" where
  "build_sr_clusters splitreads searchdist = build_sr_clusters_loop searchdist splitreads []"

section \<open>Quality trimming and the consensus of a cluster\<close>

text \<open>
  \<^verbatim>\<open>np.mean(w) < 5\<close> on a list of integers, as a comparison of rationals
  (an empty window has no mean below 5: \<^verbatim>\<open>nan < 5\<close> is false).
\<close>

definition np_mean_below :: "int list \<Rightarrow> int \<Rightarrow> bool" where
  "np_mean_below w c =
     (w \<noteq> [] \<and> (of_int (sum_list w) :: rat) / of_nat (length w) < of_int c)"

text \<open>
  The loop of \<^verbatim>\<open>qualtrim\<close> over the window starts \<^verbatim>\<open>range(0, len(q)-4)\<close>:
  the first window \<^verbatim>\<open>q[i:i+4]\<close> whose mean is below 5 returns \<^verbatim>\<open>read.seq[:i]\<close>.
\<close>

fun qualtrim_loop :: "int list \<Rightarrow> string \<Rightarrow> nat list \<Rightarrow> string" where
  "qualtrim_loop q s [] = s"
| "qualtrim_loop q s (i # rest) =
     (if np_mean_below (take 4 (drop i q)) 5 then take i s
      else qualtrim_loop q s rest)"

text \<open>\<^verbatim>\<open>q = [ord(b)-minqual for b in list(read.qual)]\<close>\<close>

definition quals :: "AlignedSegment \<Rightarrow> int \<Rightarrow> int list" where
  "quals read minqual = map (\<lambda>b. int (of_char b) - minqual) (qual read)"

definition qualtrim :: "AlignedSegment \<Rightarrow> int \<Rightarrow> string" where
  "qualtrim read minqual =
     (let q = quals read minqual
      in qualtrim_loop q (seq read) [0 ..< length q - 4])"

text \<open>
  \<^verbatim>\<open>SortableRead.__gt__\<close> orders reads by \<^verbatim>\<open>tid\<close>, then by
  \<^verbatim>\<open>reference_start - query_alignment_start\<close>; \<^verbatim>\<open>sorted\<close> is stable.
\<close>

definition SortableRead_key :: "AlignedSegment \<Rightarrow> int \<times> int" where
  "SortableRead_key r = (tid r, reference_start r - query_alignment_start r)"

text \<open>
  The loop that builds \<^verbatim>\<open>uniq_seqs\<close>: a sequence is kept when it differs from the
  one before it in \<^verbatim>\<open>seqs\<close>.
\<close>

fun uniq_from :: "string \<Rightarrow> string list \<Rightarrow> string list" where
  "uniq_from prev [] = []"
| "uniq_from prev (s # rest) =
     (if s \<noteq> prev then s # uniq_from s rest else uniq_from s rest)"

definition uniq_seqs :: "string list \<Rightarrow> string list" where
  "uniq_seqs seqs = (case seqs of [] \<Rightarrow> [] | s # rest \<Rightarrow> s # uniq_from s rest)"

text \<open>
  \<^verbatim>\<open>SplitCluster.consensus\<close>. Its last part, the iterated local alignment of two or
  more distinct sequences by scikit-bio (with the sampling of 1000 of them), is the
  parameter \<open>align_rest\<close>; everything before it is modelled. \<^verbatim>\<open>self.reads[0]\<close> raises
  \<^verbatim>\<open>IndexError\<close> on a cluster without reads. \<open>trimmed_seqs\<close> is the list of the
  quality-trimmed sequences of the sorted reads, \<open>kept_seqs\<close> the list \<^verbatim>\<open>seqs\<close> after
  the filter \<^verbatim>\<open>len(s) > 20\<close>.
\<close>

definition trimmed_seqs :: "ReadCluster \<Rightarrow> int \<Rightarrow> string list" where
  "trimmed_seqs c minqual =
     map (\<lambda>r. qualtrim r minqual) (sort_key SortableRead_key (map sr_read (cl_reads c)))"

definition kept_seqs :: "ReadCluster \<Rightarrow> int \<Rightarrow> string list" where
  "kept_seqs c minqual = filter (\<lambda>s. length s > 20) (trimmed_seqs c minqual)"

definition consensus ::
  "(string list \<Rightarrow> py_error + string \<times> rat) \<Rightarrow> ReadCluster \<Rightarrow> py_error + string \<times> rat"
where
  "consensus align_rest c =
     (case cl_reads c of
        [] \<Rightarrow> Inl IndexError
      | r0 # _ \<Rightarrow>
          let minqual = sr_minqual r0;
              seqs = kept_seqs c minqual
          in if length seqs = 0 then Inr ([], 0)
             else if length seqs = 1 then Inr (seqs ! 0, 1)
             else
               let us = uniq_seqs seqs
               in if length us = 1 then Inr (us ! 0, 1)
                  else align_rest us)"

section \<open>Breakends and insertions\<close>

text \<open>
  \<^verbatim>\<open>BreakEnd\<close>: the fields that \<^verbatim>\<open>Insertion.__init__\<close> and
  \<^verbatim>\<open>build_insertions\<close> read. The cluster, the consensus and the mappings are read
  only by the scoring function, which is a parameter below.
\<close>

record BreakEnd =
  be_uuid :: string
  be_chrom :: string
  be_breakpos :: int
  be_direction :: string

text \<open>
  \<^verbatim>\<open>Insertion\<close> right after \<^verbatim>\<open>__init__\<close>: the two breakends; the other fields are
  set to constants (\<^verbatim>\<open>None\<close>, \<^verbatim>\<open>False\<close>, empty containers) there.
\<close>

record Insertion =
  be1 :: "BreakEnd option"
  be2 :: "BreakEnd option"

definition paired :: "Insertion \<Rightarrow> bool" where
  "paired ins = (be1 ins \<noteq> None \<and> be2 ins \<noteq> None)"

definition Insertion_init :: "BreakEnd option \<Rightarrow> BreakEnd option \<Rightarrow> Insertion" where
  "Insertion_init b1 b2 =
     (let ins = \<lparr>be1 = b1, be2 = b2\<rparr>
      in if paired ins then
           (case (be1 ins, be2 ins) of
              (Some x, Some y) \<Rightarrow>
                if be_breakpos x > be_breakpos y then \<lparr>be1 = Some y, be2 = Some x\<rparr> else ins
            | _ \<Rightarrow> ins)
         else ins)"

text \<open>The breakends of an insertion, and their uuids.\<close>

definition ins_breakends :: "Insertion \<Rightarrow> BreakEnd list" where
  "ins_breakends ins =
     (case be1 ins of None \<Rightarrow> [] | Some x \<Rightarrow> [x]) @ (case be2 ins of None \<Rightarrow> [] | Some y \<Rightarrow> [y])"

definition ins_uuids :: "Insertion \<Rightarrow> string list" where
  "ins_uuids ins = map be_uuid (ins_breakends ins)"

section \<open>Pairing breakends into insertions\<close>

text \<open>
  \<^verbatim>\<open>be_dict = dict([(be.uuid, be) for be in breakends])\<close>: for a repeated key the
  last entry wins.
\<close>

definition be_dict_of :: "BreakEnd list \<Rightarrow> string \<Rightarrow> BreakEnd option" where
  "be_dict_of breakends = map_of (rev (map (\<lambda>be. (be_uuid be, be)) breakends))"

text \<open>
  An \<^verbatim>\<open>Interval(start, end, value)\<close> of the interval index, and the intervals that
  \<^verbatim>\<open>build_insertions\<close> adds to it, in the order of the breakends.
\<close>

type_synonym Interval = "int \<times> int \<times> string"

definition be_itree_of :: "BreakEnd list \<Rightarrow> int \<Rightarrow> Interval list" where
  "be_itree_of breakends maxdist =
     map (\<lambda>be. (be_breakpos be - maxdist, be_breakpos be + maxdist, be_uuid be)) breakends"

text \<open>\<^verbatim>\<open>'-'.join(sorted((be1.uuid, be2.uuid)))\<close>\<close>

definition pair_name :: "string \<Rightarrow> string \<Rightarrow> string" where
  "pair_name u v = min u v @ ''-'' @ max u v"

text \<open>
  The inner loop of the candidate search, over the intervals found for \<open>b1\<close>. The state
  is \<^verbatim>\<open>pair_scores\<close> and the keys of \<^verbatim>\<open>checked_pairs\<close>. The scoring function
  \<^verbatim>\<open>score_breakend_pair\<close> (a gamma density over the mappings of the two breakends)
  is the parameter \<open>score\<close>; it returns \<^verbatim>\<open>None\<close> or a number.
\<close>

fun pair_found ::
  "(BreakEnd \<Rightarrow> BreakEnd \<Rightarrow> 's option) \<Rightarrow> (string \<Rightarrow> BreakEnd option) \<Rightarrow> int \<Rightarrow> BreakEnd \<Rightarrow>
   Interval list \<Rightarrow> (string \<times> string \<times> 's option) list \<times> string list \<Rightarrow>
   py_error + (string \<times> string \<times> 's option) list \<times> string list"
where
  "pair_found score be_dict maxdist b1 [] st = Inr st"
| "pair_found score be_dict maxdist b1 ((s, e, v) # rest) (pair_scores, checked_pairs) =
     (case be_dict v of
        None \<Rightarrow> Inl KeyError
      | Some b2 \<Rightarrow>
          let pn = pair_name (be_uuid b1) (be_uuid b2);
              pair_scores1 =
                (if be_uuid b1 \<noteq> be_uuid b2 \<and> be_direction b1 \<noteq> be_direction b2
                    \<and> pn \<notin> set checked_pairs
                 then (if \<bar>be_breakpos b1 - be_breakpos b2\<bar> \<le> maxdist
                       then pair_scores @ [(be_uuid b1, be_uuid b2, score b1 b2)]
                       else pair_scores)
                 else pair_scores)
          in pair_found score be_dict maxdist b1 rest (pair_scores1, pn # checked_pairs))"

text \<open>
  The outer loop over the breakends. The interval index is the bx-python
  \<^verbatim>\<open>Intersecter\<close>; its \<^verbatim>\<open>find(start, end)\<close> is the parameter \<open>itree_find\<close>, applied to the
  intervals added so far.
\<close>

fun pair_all ::
  "(Interval list \<Rightarrow> int \<Rightarrow> int \<Rightarrow> Interval list) \<Rightarrow> (BreakEnd \<Rightarrow> BreakEnd \<Rightarrow> 's option) \<Rightarrow>
   (string \<Rightarrow> BreakEnd option) \<Rightarrow> Interval list \<Rightarrow> int \<Rightarrow> BreakEnd list \<Rightarrow>
   (string \<times> string \<times> 's option) list \<times> string list \<Rightarrow>
   py_error + (string \<times> string \<times> 's option) list \<times> string list"
where
  "pair_all itree_find score be_dict be_itree maxdist [] st = Inr st"
| "pair_all itree_find score be_dict be_itree maxdist (b1 # rest) st =
     (case pair_found score be_dict maxdist b1
             (itree_find be_itree (be_breakpos b1) (be_breakpos b1 + 1)) st of
        Inl e \<Rightarrow> Inl e
      | Inr st1 \<Rightarrow> pair_all itree_find score be_dict be_itree maxdist rest st1)"

text \<open>
  \<^verbatim>\<open>pair_scores.sort(key=itemgetter(2), reverse=True)\<close>: a stable sort, descending;
  entries with equal scores keep their order.
\<close>

definition sort_by_score_desc :: "(string \<times> string \<times> 's::linorder) list \<Rightarrow> (string \<times> string \<times> 's) list" where
  "sort_by_score_desc ps = rev (sort_key (\<lambda>(u, v, sc). sc) (rev ps))"

text \<open>
  The greedy loop: a pair is accepted when neither of its breakends is used. The state
  is the list of insertions and the keys of \<^verbatim>\<open>used\<close>.
\<close>

fun accept_pairs ::
  "(string \<Rightarrow> BreakEnd option) \<Rightarrow> (string \<times> string \<times> 's) list \<Rightarrow>
   Insertion list \<times> string list \<Rightarrow> py_error + Insertion list \<times> string list"
where
  "accept_pairs be_dict [] st = Inr st"
| "accept_pairs be_dict ((u1, u2, sc) # rest) (insertions, used) =
     (if u1 \<notin> set used \<and> u2 \<notin> set used then
        (case be_dict u1 of
           None \<Rightarrow> Inl KeyError
         | Some b1 \<Rightarrow>
             (case be_dict u2 of
                None \<Rightarrow> Inl KeyError
              | Some b2 \<Rightarrow>
                  accept_pairs be_dict rest
                    (insertions @ [Insertion_init (Some b1) (Some b2)], used @ [u1, u2])))
      else accept_pairs be_dict rest (insertions, used))"

text \<open>The last loop: every breakend not used so far becomes a single-ended insertion.\<close>

fun single_ends :: "BreakEnd list \<Rightarrow> Insertion list \<times> string list \<Rightarrow> Insertion list \<times> string list" where
  "single_ends [] st = st"
| "single_ends (be # rest) (insertions, used) =
     (if be_uuid be \<notin> set used
      then single_ends rest (insertions @ [Insertion_init (Some be) None], used @ [be_uuid be])
      else single_ends rest (insertions, used))"

definition build_insertions ::
  "(Interval list \<Rightarrow> int \<Rightarrow> int \<Rightarrow> Interval list) \<Rightarrow> (BreakEnd \<Rightarrow> BreakEnd \<Rightarrow> 's::linorder option) \<Rightarrow>
   BreakEnd list \<Rightarrow> int \<Rightarrow> py_error + Insertion list"
where
  "build_insertions itree_find score breakends maxdist =
     (let be_dict = be_dict_of breakends;
          be_itree = be_itree_of breakends maxdist
      in case pair_all itree_find score be_dict be_itree maxdist breakends ([], []) of
           Inl e \<Rightarrow> Inl e
         | Inr (pair_scores, checked_pairs) \<Rightarrow>
             let pair_scores1 =
                   map (\<lambda>(u, v, sc). (u, v, the sc))
                     (filter (\<lambda>(u, v, sc). sc \<noteq> None) pair_scores);
                 pair_scores2 = sort_by_score_desc pair_scores1
             in case accept_pairs be_dict pair_scores2 ([], []) of
                  Inl e \<Rightarrow> Inl e
                | Inr st \<Rightarrow> Inr (fst (single_ends breakends st)))"

section \<open>Duplicate insertions across chunks\<close>

text \<open>
  The entries of \<^verbatim>\<open>ins['INFO']\<close> that \<^verbatim>\<open>resolve_duplicates\<close> and
  \<^verbatim>\<open>prefer_insertion\<close> read. \<^verbatim>\<open>compile_info\<close> sets \<^verbatim>\<open>be2_breakpos\<close> to
  \<^verbatim>\<open>be1_breakpos\<close> and \<^verbatim>\<open>be2_sr_count\<close> to 0 for an insertion with one breakend.
\<close>

record INFO =
  chrom :: string
  be1_breakpos :: int
  be2_breakpos :: int
  be1_sr_count :: int
  be2_sr_count :: int
  dr_count :: int

definition prefer_insertion :: "INFO \<Rightarrow> INFO \<Rightarrow> bool" where
  "prefer_insertion ins1 ins2 =
     (if be1_breakpos ins1 \<noteq> be2_breakpos ins1 \<and> be1_breakpos ins2 = be2_breakpos ins2 then True
      else if be1_sr_count ins1 + be2_sr_count ins1 > be1_sr_count ins2 + be2_sr_count ins2 then True
      else if dr_count ins1 > dr_count ins2 then True
      else False)"

text \<open>
  The loop of \<^verbatim>\<open>resolve_duplicates\<close> over \<^verbatim>\<open>enumerate(insertions)\<close>. The key
  \<^verbatim>\<open>chrom + ':' + str(pos)\<close> is the pair of the chromosome and the position (the
  decimal numeral holds no colon, so the string determines the pair). \<^verbatim>\<open>insdict\<close>
  maps a key to an index into \<^verbatim>\<open>insertions\<close>; every index stored is one already
  enumerated.
\<close>

fun resolve_loop ::
  "INFO list \<Rightarrow> (nat \<times> INFO) list \<Rightarrow> ((string \<times> int) \<times> nat) list \<Rightarrow> ((string \<times> int) \<times> nat) list"
where
  "resolve_loop insertions [] insdict = insdict"
| "resolve_loop insertions ((n, ins) # rest) insdict =
     (let k1 = (chrom ins, be1_breakpos ins);
          k2 = (chrom ins, be2_breakpos ins)
      in case map_of insdict k1 of
           None \<Rightarrow>
             resolve_loop insertions rest (AList.update k2 n (AList.update k1 n insdict))
         | Some m \<Rightarrow>
             if prefer_insertion ins (insertions ! m)
             then resolve_loop insertions rest (AList.update k2 n (AList.update k1 n insdict))
             else resolve_loop insertions rest insdict)"

text \<open>
  \<^verbatim>\<open>resolve_duplicates\<close> returns the insertions at the indices in
  \<^verbatim>\<open>set(insdict.values())\<close>. The iteration order of a Python set is not fixed by the
  language; the model lists the indices in increasing order.
\<close>

definition resolve_duplicates :: "INFO list \<Rightarrow> INFO list" where
  "resolve_duplicates insertions =
     (let insdict = resolve_loop insertions (enumerate 0 insertions) []
      in map (\<lambda>n. insertions ! n) (sort (remdups (map snd insdict))))"

section \<open>Subsampling discordant reads\<close>

text \<open>
  \<^verbatim>\<open>subsample_dict(orig, n, seed=1)\<close>. A dict is an association list with distinct
  keys. \<^verbatim>\<open>random.sample(orig.keys(), n)\<close> with the fixed seed is a function of the keys
  and of \<open>n\<close>, the parameter \<open>sample\<close>; it raises \<^verbatim>\<open>ValueError\<close> for a negative
  \<open>n\<close>.
\<close>

fun subsample_fill :: "(string \<times> 'v) list \<Rightarrow> string list \<Rightarrow> (string \<times> 'v) list \<Rightarrow> py_error + (string \<times> 'v) list" where
  "subsample_fill orig [] d = Inr d"
| "subsample_fill orig (k # ks) d =
     (case map_of orig k of
        None \<Rightarrow> Inl KeyError
      | Some v \<Rightarrow> subsample_fill orig ks (AList.update k v d))"

definition subsample_dict ::
  "(string list \<Rightarrow> nat \<Rightarrow> string list) \<Rightarrow> (string \<times> 'v) list \<Rightarrow> int \<Rightarrow> py_error + (string \<times> 'v) list"
where
  "subsample_dict sample orig n =
     (if \<not> int (length orig) \<ge> n then Inl AssertionError
      else if n = 0 then Inr []
      else if n < 0 then Inl ValueError
      else subsample_fill orig (sample (map fst orig) (nat n)) [])"

text \<open>
  \<^verbatim>\<open>(len(bucket) / float(total)) * max_fetch\<close>: the total is converted to a
  float, the length is converted and divided by it (a float division by zero
  raises), and the quotient is multiplied by the converted cap; the division and the
  multiplication each round to a double.
\<close>

definition float_share :: "int \<Rightarrow> int \<Rightarrow> int \<Rightarrow> py_error + rat" where
  "float_share n tot max_fetch =
     (case py_float (of_int tot) of
        Inl e \<Rightarrow> Inl e
      | Inr ft \<Rightarrow>
          (case py_float (of_int n) of
             Inl e \<Rightarrow> Inl e
           | Inr fl \<Rightarrow>
               if ft = 0 then Inl ZeroDivisionError
               else
                 (case py_float (fl / ft) of
                    Inl e \<Rightarrow> Inl e
                  | Inr y \<Rightarrow>
                      (case py_float (of_int max_fetch) of
                         Inl e \<Rightarrow> Inl e
                       | Inr fc \<Rightarrow> py_float (y * fc)))))"

text \<open>
  The subsampling step of \<^verbatim>\<open>Insertion.fetch_discordant_reads\<close> for one alignment
  file (lines 669 to 679), from the two buckets filled by the fetch loop: both shares
  are computed as floats, then each bucket is subsampled to \<^verbatim>\<open>int()\<close> of its share.
\<close>

definition fetch_discordant_subsample ::
  "(string list \<Rightarrow> nat \<Rightarrow> string list) \<Rightarrow> (string \<times> 'v) list \<Rightarrow> (string \<times> 'v) list \<Rightarrow> int \<Rightarrow>
   py_error + (string \<times> 'v) list \<times> (string \<times> 'v) list"
where
  "fetch_discordant_subsample sample bam_mapped bam_unmapped max_fetch =
     (let m = int (length bam_mapped);
          u = int (length bam_unmapped)
      in if m + u > max_fetch then
           (case float_share m (m + u) max_fetch of
              Inl e \<Rightarrow> Inl e
            | Inr mapped_sub \<Rightarrow>
                (case float_share u (m + u) max_fetch of
                   Inl e \<Rightarrow> Inl e
                 | Inr unmapped_sub \<Rightarrow>
                     (case subsample_dict sample bam_mapped (py_int mapped_sub) of
                        Inl e \<Rightarrow> Inl e
                      | Inr bm \<Rightarrow>
                          (case subsample_dict sample bam_unmapped (py_int unmapped_sub) of
                             Inl e \<Rightarrow> Inl e
                           | Inr bu \<Rightarrow> Inr (bm, bu)))))
         else Inr (bam_mapped, bam_unmapped))"

section \<open>Concrete inputs\<close>

text \<open>Two genomes of one chromosome, of 10 and of 100 bases.\<close>

definition genome_a :: Genome where
  "genome_a = Genome_init [(''chr1'', 10)] []"

definition genome_b :: Genome where
  "genome_b = Genome_init [(''chr1'', 100)] []"

text \<open>
  Two reads of 30 bases on the same chromosome, each clipped on the left (20 clipped
  bases, 10 aligned ones), aligned from 1000 and from 1101, and their split reads.
\<close>

definition read_a :: AlignedSegment where
  "read_a = \<lparr>seq = ''ACGTACGTACGTACGTACGTACGTACGTAC'', qual = ''IIIIIIIIIIIIIIIIIIIIIIIIIIIIII'',
     tid = 0, reference_start = 1000, query_alignment_start = 20,
     positions = [1000, 1001, 1002, 1003, 1004, 1005, 1006, 1007, 1008, 1009],
     qstart = 20, qend = 30, rlen = 30\<rparr>"

definition read_b :: AlignedSegment where
  "read_b = \<lparr>seq = ''ACGTACGTACGTACGTACGTACGTACGTAC'', qual = ''IIIIIIIIIIIIIIIIIIIIIIIIIIIIII'',
     tid = 0, reference_start = 1101, query_alignment_start = 20,
     positions = [1101, 1102, 1103, 1104, 1105, 1106, 1107, 1108, 1109, 1110],
     qstart = 20, qend = 30, rlen = 30\<rparr>"

definition split_a :: SplitRead where
  "split_a = \<lparr>sr_chrom = ''chr1'', sr_read = read_a, sr_minqual = 35,
     sr_breakleft = True, sr_breakright = False, sr_breakpos = 1000\<rparr>"

definition split_b :: SplitRead where
  "split_b = \<lparr>sr_chrom = ''chr1'', sr_read = read_b, sr_minqual = 35,
     sr_breakleft = True, sr_breakright = False, sr_breakpos = 1101\<rparr>"

text \<open>
  A read of four bases, all of low quality, and a read of ten bases whose last six are
  of low quality (\<^verbatim>\<open>!\<close> is 33, \<^verbatim>\<open>I\<close> is 73).
\<close>

definition read_low4 :: AlignedSegment where
  "read_low4 = \<lparr>seq = ''ACGT'', qual = ''!!!!'', tid = 0, reference_start = 500,
     query_alignment_start = 0, positions = [500, 501, 502, 503],
     qstart = 0, qend = 4, rlen = 4\<rparr>"

definition read_low6 :: AlignedSegment where
  "read_low6 = \<lparr>seq = ''ACGTACGTAC'', qual = ''IIII!!!!!!'', tid = 0, reference_start = 500,
     query_alignment_start = 0,
     positions = [500, 501, 502, 503, 504, 505, 506, 507, 508, 509],
     qstart = 0, qend = 10, rlen = 10\<rparr>"

text \<open>Two breakends, the first to the right of the second.\<close>

definition breakend_a :: BreakEnd where
  "breakend_a = \<lparr>be_uuid = ''a'', be_chrom = ''chr1'', be_breakpos = 105, be_direction = ''right''\<rparr>"

definition breakend_b :: BreakEnd where
  "breakend_b = \<lparr>be_uuid = ''b'', be_chrom = ''chr1'', be_breakpos = 100, be_direction = ''left''\<rparr>"

text \<open>
  Two summaries of the same insertion from overlapping chunks: the first with five
  split reads and two discordant ones, the second with three and ten.
\<close>

definition info_p :: INFO where
  "info_p = \<lparr>chrom = ''chr1'', be1_breakpos = 100, be2_breakpos = 105,
     be1_sr_count = 3, be2_sr_count = 2, dr_count = 2\<rparr>"

definition info_q :: INFO where
  "info_q = \<lparr>chrom = ''chr1'', be1_breakpos = 100, be2_breakpos = 105,
     be1_sr_count = 2, be2_sr_count = 1, dr_count = 10\<rparr>"

text \<open>
  A read of exactly 20 bases of high quality and its split read; the cluster of two
  such split reads at the same breakpoint, and the cluster of the one split read of 30
  bases. \<open>align_unused\<close> stands for the alignment step of the consensus where that
  step is not reached.
\<close>

definition read_20 :: AlignedSegment where
  "read_20 = \<lparr>seq = ''ACGTACGTACGTACGTACGT'', qual = ''IIIIIIIIIIIIIIIIIIII'',
     tid = 0, reference_start = 1000, query_alignment_start = 10,
     positions = [1000, 1001, 1002, 1003, 1004, 1005, 1006, 1007, 1008, 1009],
     qstart = 10, qend = 20, rlen = 20\<rparr>"

definition split_20 :: SplitRead where
  "split_20 = \<lparr>sr_chrom = ''chr1'', sr_read = read_20, sr_minqual = 35,
     sr_breakleft = True, sr_breakright = False, sr_breakpos = 1000\<rparr>"

definition empty_cluster :: ReadCluster where
  "empty_cluster = \<lparr>cl_reads = [], cl_start = 0, cl_end = 0, cl_median = 0, cl_chrom = None\<rparr>"

definition cluster_20 :: ReadCluster where
  "cluster_20 = \<lparr>cl_reads = [split_20, split_20], cl_start = 1000, cl_end = 1000,
     cl_median = 1000, cl_chrom = Some ''chr1''\<rparr>"

definition cluster_a :: ReadCluster where
  "cluster_a = \<lparr>cl_reads = [split_a], cl_start = 1000, cl_end = 1000, cl_median = 1000,
     cl_chrom = Some ''chr1''\<rparr>"

definition align_unused :: "string list \<Rightarrow> py_error + string \<times> rat" where
  "align_unused us = Inl ValueError"

text \<open>
  What \<^verbatim>\<open>random.sample\<close> guarantees for a population of distinct keys and a sample
  size within it: that many distinct elements of the population. \<open>sample_first\<close>,
  the first \<open>n\<close> keys, is one such choice, used to run the model; three small
  buckets of discordant reads, keyed by read name.
\<close>

definition sample_contract :: "(string list \<Rightarrow> nat \<Rightarrow> string list) \<Rightarrow> bool" where
  "sample_contract sample =
     (\<forall>ks n. distinct ks \<and> n \<le> length ks \<longrightarrow>
        length (sample ks n) = n \<and> distinct (sample ks n) \<and> set (sample ks n) \<subseteq> set ks)"

definition sample_first :: "string list \<Rightarrow> nat \<Rightarrow> string list" where
  "sample_first ks n = take n ks"

definition bucket_1 :: "(string \<times> nat) list" where
  "bucket_1 = [(''r1'', 1)]"

definition bucket_2 :: "(string \<times> nat) list" where
  "bucket_2 = [(''r2'', 2), (''r3'', 3)]"

definition bucket_3 :: "(string \<times> nat) list" where
  "bucket_3 = [(''r4'', 4), (''r5'', 5)]"

text \<open>
  A third breakend, far from the other two. \<open>itree_find_overlap\<close>, the intervals
  that overlap the query in the order added, stands for \<^verbatim>\<open>Intersecter.find\<close>, and
  \<open>score_one\<close>, the same score for every pair, for \<^verbatim>\<open>score_breakend_pair\<close>, to
  run the model.
\<close>

definition breakend_c :: BreakEnd where
  "breakend_c = \<lparr>be_uuid = ''c'', be_chrom = ''chr1'', be_breakpos = 500, be_direction = ''left''\<rparr>"

definition itree_find_overlap :: "Interval list \<Rightarrow> int \<Rightarrow> int \<Rightarrow> Interval list" where
  "itree_find_overlap ivs s e = filter (\<lambda>(a, b, v). a < e \<and> s < b) ivs"

definition score_one :: "BreakEnd \<Rightarrow> BreakEnd \<Rightarrow> int option" where
  "score_one b1 b2 = Some 1"

text \<open>
  Buckets of any size: \<open>reads_numbered a n\<close> holds \<open>n\<close> reads, numbered from \<open>a\<close>, the
  name of read \<open>i\<close> being \<open>i\<close> letters. A mate-mapped bucket of 42 reads and a
  mate-unmapped bucket of 58.
\<close>

definition reads_numbered :: "nat \<Rightarrow> nat \<Rightarrow> (string \<times> nat) list" where
  "reads_numbered a n = map (\<lambda>i. (replicate i CHR ''r'', i)) [a ..< a + n]"

definition bucket_42 :: "(string \<times> nat) list" where
  "bucket_42 = reads_numbered 1 42"

definition bucket_58 :: "(string \<times> nat) list" where
  "bucket_58 = reads_numbered 43 58"

section \<open>Genome.chunk\<close>

text \<open>
  Claim C1 says that the chunks of \<^verbatim>\<open>Genome.chunk(N)\<close> cover every base of the genome
  exactly once and that there are exactly N of them. On one chromosome of 10 bases,
  N = 3 gives three chunks that end at base 9, so the last base is in no chunk (the
  interval (9, 10) is collected but its chunk is never appended), and N = 4 gives five
  chunks.
\<close>

theorem chunk_loses_bases:
  "chunk genome_a 3 False 0 False
     = Some (Inr (Chunks [[(''chr1'', 0, 3)], [(''chr1'', 3, 6)], [(''chr1'', 6, 9)]]))
   \<and> chunk genome_a 4 False 0 False
     = Some (Inr (Chunks [[(''chr1'', 0, 2)], [(''chr1'', 2, 4)], [(''chr1'', 4, 6)],
                          [(''chr1'', 6, 8)], [(''chr1'', 8, 10)]]))"
  by code_simp

section \<open>Genome.addpad\<close>

text \<open>
  Claim C9. \<^verbatim>\<open>addpad\<close> fails, with an assertion, exactly when the chromosome is not
  in the table. For a chromosome of length \<open>len\<close> it returns the start lowered by the
  pad and raised to 0, and the end raised by the pad and lowered to \<open>len\<close>: the start
  is never below 0 and the end never beyond \<open>len\<close>. On the intervals that
  \<^verbatim>\<open>Genome.chunk\<close> passes to it, which lie within the chromosome, with a pad that is
  not negative, both coordinates returned lie within \<open>[0, len]\<close>, in order.
\<close>

theorem addpad_clamps:
  "(addpad g (c, s, e) pad = Inl AssertionError \<longleftrightarrow> map_of (chrlen g) c = None)
   \<and> (\<forall>len. map_of (chrlen g) c = Some len \<longrightarrow>
         addpad g (c, s, e) pad = Inr (c, max 0 (s - pad), min len (e + pad))
         \<and> 0 \<le> max 0 (s - pad) \<and> min len (e + pad) \<le> len
         \<and> (0 \<le> pad \<and> 0 \<le> s \<and> s \<le> e \<and> e \<le> len \<longrightarrow>
              max 0 (s - pad) \<le> min len (e + pad) \<and> 0 \<le> min len (e + pad)
              \<and> max 0 (s - pad) \<le> len))"
  by (auto simp: addpad_def Let_def max_def min_def split: option.splits)

text \<open>The theorem at two intervals of the chromosome of 100 bases, padded by 5.\<close>

theorem addpad_clamps_witness:
  "map_of (chrlen genome_b) ''chr1'' = Some 100
   \<and> (0::int) \<le> 5 \<and> (0::int) \<le> 10 \<and> (10::int) \<le> 20 \<and> (20::int) \<le> 100
   \<and> addpad genome_b (''chr1'', 10, 20) 5 = Inr (''chr1'', 5, 25)
   \<and> addpad genome_b (''chr1'', 10, 98) 5 = Inr (''chr1'', 5, 100)"
proof -
  have m: "map_of (chrlen genome_b) ''chr1'' = Some 100"
    by (simp add: genome_b_def Genome_init_def)
  from addpad_clamps [of genome_b "''chr1''" 10 20 5] m
  have a: "addpad genome_b (''chr1'', 10, 20) 5 = Inr (''chr1'', 5, 25)" by simp
  from addpad_clamps [of genome_b "''chr1''" 10 98 5] m
  have b: "addpad genome_b (''chr1'', 10, 98) 5 = Inr (''chr1'', 5, 100)" by simp
  from m a b show ?thesis by simp
qed

section \<open>Insertion.__init__\<close>

text \<open>
  Claim C7. An insertion constructed from two breakends holds both, the one with the
  lower position as \<open>be1\<close> (they are swapped when given in the opposite order, and
  kept otherwise), so \<open>be1.breakpos \<le> be2.breakpos\<close>; an insertion constructed from one
  breakend holds it as \<open>be1\<close> and has no \<open>be2\<close>.
\<close>

theorem Insertion_init_ordered:
  "(\<exists>x y. Insertion_init (Some a) (Some b) = \<lparr>be1 = Some x, be2 = Some y\<rparr>
          \<and> be_breakpos x \<le> be_breakpos y
          \<and> (if be_breakpos a > be_breakpos b then x = b \<and> y = a else x = a \<and> y = b))
   \<and> Insertion_init (Some a) None = \<lparr>be1 = Some a, be2 = None\<rparr>"
  by (simp add: Insertion_init_def paired_def Let_def)

text \<open>The theorem at two breakends given in the opposite order: they are swapped.\<close>

theorem Insertion_init_ordered_witness:
  "be_breakpos breakend_a > be_breakpos breakend_b
   \<and> Insertion_init (Some breakend_a) (Some breakend_b)
       = \<lparr>be1 = Some breakend_b, be2 = Some breakend_a\<rparr>
   \<and> Insertion_init (Some breakend_a) None = \<lparr>be1 = Some breakend_a, be2 = None\<rparr>"
proof -
  have h: "be_breakpos breakend_a > be_breakpos breakend_b"
    by (simp add: breakend_a_def breakend_b_def)
  from Insertion_init_ordered [of breakend_a breakend_b] h show ?thesis
    by auto
qed

section \<open>ReadCluster.add_read and build_sr_clusters\<close>

text \<open>
  Claim C8 says that every add operation leaves the running start of a cluster at or
  below its running end. \<^verbatim>\<open>ReadCluster.add_read\<close> sets the start to the maximum and
  the end to the minimum of the aligned positions (\<^verbatim>\<open>find_extrema\<close> and
  \<^verbatim>\<open>add_splitread\<close> have them the other way round): a cluster created from one read
  aligned at 1000 to 1009 has start 1009 and end 1000.
\<close>

theorem add_read_inverts_start_end:
  "SplitRead_init ''chr1'' read_a 35 = Inr split_a
   \<and> ReadCluster_init (Some split_a)
       = Inr \<lparr>cl_reads = [split_a], cl_start = 1009, cl_end = 1000, cl_median = 1004,
              cl_chrom = Some ''chr1''\<rparr>"
  by code_simp

text \<open>
  Claim C4 says that, on sorted split reads, every gap between adjacent breakpoints
  inside a cluster is at most the distance threshold. A cluster is created by
  \<^verbatim>\<open>SplitCluster(sr)\<close>, whose inherited constructor calls \<^verbatim>\<open>add_read\<close>, so the
  median of a cluster of one read is the median of its aligned positions (1004 here),
  not its breakpoint (1000). The second read, with breakpoint 1101, is within 100 of
  that median and joins the cluster, 101 bases from the first breakpoint.
\<close>

theorem build_sr_clusters_gap_over_threshold:
  "SplitRead_init ''chr1'' read_a 35 = Inr split_a
   \<and> SplitRead_init ''chr1'' read_b 35 = Inr split_b
   \<and> build_sr_clusters [split_a, split_b] 100
       = Inr [\<lparr>cl_reads = [split_a, split_b], cl_start = 1000, cl_end = 1101, cl_median = 1101,
               cl_chrom = Some ''chr1''\<rparr>]
   \<and> sr_breakpos split_b - sr_breakpos split_a = 101"
  by code_simp

section \<open>qualtrim\<close>

lemma qualtrim_loop_find:
  "qualtrim_loop q s is =
     (case find (\<lambda>i. np_mean_below (take 4 (drop i q)) 5) is of
        None \<Rightarrow> s
      | Some i \<Rightarrow> take i s)"
  by (induction "is") auto

text \<open>
  Claim C10, amended. \<^verbatim>\<open>qualtrim\<close> returns a prefix of the sequence of the read.
  The windows examined are the windows of four quality values that start at the
  indices \<open>0\<close> to \<open>len(q) - 5\<close> (the window of the last four values is not among them):
  when none of those has a mean below 5 the whole sequence is returned, otherwise the
  sequence cut at the start of the first of them that has.
\<close>

theorem qualtrim_prefix:
  "prefix (qualtrim read minqual) (seq read)
   \<and> ((\<forall>i < length (quals read minqual) - 4.
          \<not> np_mean_below (take 4 (drop i (quals read minqual))) 5)
        \<longrightarrow> qualtrim read minqual = seq read)
   \<and> (\<forall>i < length (quals read minqual) - 4.
         np_mean_below (take 4 (drop i (quals read minqual))) 5
         \<and> (\<forall>j < i. \<not> np_mean_below (take 4 (drop j (quals read minqual))) 5)
        \<longrightarrow> qualtrim read minqual = take i (seq read))"
proof (intro conjI allI impI)
  let ?q = "quals read minqual"
  let ?P = "\<lambda>i. np_mean_below (take 4 (drop i ?q)) 5"
  have eq: "qualtrim read minqual =
      (case find ?P [0 ..< length ?q - 4] of None \<Rightarrow> seq read | Some i \<Rightarrow> take i (seq read))"
    by (simp add: qualtrim_def Let_def qualtrim_loop_find)
  show "prefix (qualtrim read minqual) (seq read)"
    unfolding eq by (simp add: take_is_prefix split: option.splits)
  show "qualtrim read minqual = seq read" if "\<forall>i < length ?q - 4. \<not> ?P i"
  proof -
    from that have "find ?P [0 ..< length ?q - 4] = None"
      by (simp add: find_None_iff)
    then show ?thesis unfolding eq by simp
  qed
  show "qualtrim read minqual = take i (seq read)"
    if "i < length ?q - 4" and "?P i \<and> (\<forall>j < i. \<not> ?P j)" for i
  proof -
    from that have "find ?P [0 ..< length ?q - 4] = Some i"
      by (auto simp: find_Some_iff intro!: exI [of _ i])
    then show ?thesis unfolding eq by simp
  qed
qed

text \<open>
  The theorem at the read of ten bases: the windows that start at 0 to 3 pass, the one
  that starts at 4 fails, and the sequence is cut to its first four bases.
\<close>

theorem qualtrim_prefix_witness:
  "(4::nat) < length (quals read_low6 35) - 4
   \<and> np_mean_below (take 4 (drop 4 (quals read_low6 35))) 5
   \<and> \<not> np_mean_below (take 4 (drop 0 (quals read_low6 35))) 5
   \<and> \<not> np_mean_below (take 4 (drop 1 (quals read_low6 35))) 5
   \<and> \<not> np_mean_below (take 4 (drop 2 (quals read_low6 35))) 5
   \<and> \<not> np_mean_below (take 4 (drop 3 (quals read_low6 35))) 5
   \<and> qualtrim read_low6 35 = ''ACGT''
   \<and> prefix (qualtrim read_low6 35) (seq read_low6)"
proof -
  have q: "quals read_low6 35 = [38, 38, 38, 38, -2, -2, -2, -2, -2, -2]"
    by code_simp
  have h1: "(4::nat) < length (quals read_low6 35) - 4"
    by (simp add: q)
  have h2: "np_mean_below (take 4 (drop 4 (quals read_low6 35))) 5"
    by (simp add: q np_mean_below_def)
  have h3: "\<not> np_mean_below (take 4 (drop j (quals read_low6 35))) 5" if "j < 4" for j
  proof -
    from that consider "j = 0" | "j = 1" | "j = 2" | "j = 3" by linarith
    then show ?thesis
      by cases (simp_all add: q np_mean_below_def)
  qed
  from qualtrim_prefix [of read_low6 35] h1 h2 h3
  have r: "qualtrim read_low6 35 = take 4 (seq read_low6)"
    and p: "prefix (qualtrim read_low6 35) (seq read_low6)" by blast+
  have "take 4 (seq read_low6) = ''ACGT''" by (simp add: read_low6_def)
  with r p h1 h2 h3 [of 0] h3 [of 1] h3 [of 2] h3 [of 3] show ?thesis by simp
qed

text \<open>
  As stated, the claim fails: the only window of four quality values of the read of
  four bases has a mean below 5, and the sequence is returned whole, not cut at the
  start of that window.
\<close>

theorem qualtrim_last_window_unchecked:
  "np_mean_below (take 4 (drop 0 (quals read_low4 35))) 5
   \<and> qualtrim read_low4 35 = ''ACGT''
   \<and> take 0 (seq read_low4) = []"
  by code_simp

section \<open>resolve_duplicates\<close>

text \<open>
  Claim C5 says that, of two records with the same chromosome and breakend positions,
  the one retained is chosen by the ordered preference: two-sided support, then the
  higher split-read count, then the higher discordant-read count.
  \<^verbatim>\<open>prefer_insertion\<close> returns true as soon as any one of the three tests holds, so
  a record with fewer split reads and more discordant reads is preferred to the other,
  and the other to it: the later of the two records replaces the earlier, whichever
  comes later.
\<close>

theorem resolve_duplicates_keeps_fewer_split_reads:
  "resolve_duplicates [info_p, info_q] = [info_q]
   \<and> resolve_duplicates [info_q, info_p] = [info_p]
   \<and> be1_sr_count info_p + be2_sr_count info_p = 5
   \<and> be1_sr_count info_q + be2_sr_count info_q = 3
   \<and> prefer_insertion info_q info_p
   \<and> prefer_insertion info_p info_q"
  by code_simp

section \<open>SplitCluster.consensus\<close>

lemma uniq_from_all_equal: "\<forall>t \<in> set xs. t = s \<Longrightarrow> uniq_from s xs = []"
  by (induction xs) auto

lemma uniq_seqs_all_equal:
  assumes "xs \<noteq> []" and "\<forall>t \<in> set xs. t = s"
  shows "uniq_seqs xs = [s]"
proof (cases xs)
  case Nil
  with assms show ?thesis by simp
next
  case (Cons x rest)
  with assms have "x = s" and "\<forall>t \<in> set rest. t = s" by auto
  with Cons show ?thesis by (simp add: uniq_seqs_def uniq_from_all_equal)
qed

lemma consensus_no_seqs:
  assumes "cl_reads c = r0 # rs" and "kept_seqs c (sr_minqual r0) = []"
  shows "consensus al c = Inr ([], 0)"
  using assms by (simp add: consensus_def)

lemma consensus_all_equal:
  assumes "cl_reads c = r0 # rs" and ne: "kept_seqs c (sr_minqual r0) \<noteq> []"
    and eq: "\<forall>t \<in> set (kept_seqs c (sr_minqual r0)). t = s"
  shows "consensus al c = Inr (s, 1)"
proof -
  let ?k = "kept_seqs c (sr_minqual r0)"
  have u: "uniq_seqs ?k = [s]" using ne eq by (rule uniq_seqs_all_equal)
  have h: "?k ! 0 = s" using ne eq by (cases ?k) auto
  show ?thesis
    using assms(1) ne u h by (simp add: consensus_def Let_def)
qed

text \<open>
  Claim C3, amended. In \<^verbatim>\<open>SplitCluster.consensus\<close> on a cluster with at least one
  read, the sequence of every read is quality-trimmed (with the threshold of the first
  read of the cluster), and the trimmed sequences of 20 bases or fewer are discarded:
  those longer than 20 bases are kept. When none is kept the result is the empty
  sequence with score 0. When the kept ones are all equal to one sequence (so also when
  exactly one is kept) the result is that sequence with score 1. In particular a
  cluster of a single read of more than 20 bases that trimming leaves whole returns the
  sequence of that read with score 1.
\<close>

theorem consensus_short_cases:
  "cl_reads c = r0 # rs \<longrightarrow>
     mset (trimmed_seqs c (sr_minqual r0))
       = image_mset (\<lambda>r. qualtrim (sr_read r) (sr_minqual r0)) (mset (cl_reads c))
     \<and> kept_seqs c (sr_minqual r0)
       = filter (\<lambda>s. 20 < length s) (trimmed_seqs c (sr_minqual r0))
     \<and> (kept_seqs c (sr_minqual r0) = [] \<longrightarrow> consensus al c = Inr ([], 0))
     \<and> (\<forall>s. kept_seqs c (sr_minqual r0) \<noteq> []
              \<and> (\<forall>t \<in> set (kept_seqs c (sr_minqual r0)). t = s)
            \<longrightarrow> consensus al c = Inr (s, 1))
     \<and> (rs = [] \<and> qualtrim (sr_read r0) (sr_minqual r0) = seq (sr_read r0)
          \<and> 20 < length (seq (sr_read r0))
            \<longrightarrow> consensus al c = Inr (seq (sr_read r0), 1))"
proof (intro impI conjI allI)
  assume c: "cl_reads c = r0 # rs"
  let ?mq = "sr_minqual r0"
  have "mset (sort_key SortableRead_key (map sr_read (cl_reads c))) = mset (map sr_read (cl_reads c))"
    by simp
  then have "image_mset (\<lambda>r. qualtrim r ?mq) (mset (sort_key SortableRead_key (map sr_read (cl_reads c))))
      = image_mset (\<lambda>r. qualtrim r ?mq) (mset (map sr_read (cl_reads c)))"
    by (rule arg_cong)
  then show "mset (trimmed_seqs c ?mq) = image_mset (\<lambda>r. qualtrim (sr_read r) ?mq) (mset (cl_reads c))"
    by (simp add: trimmed_seqs_def image_mset.compositionality comp_def del: mset_sort)
  show "kept_seqs c ?mq = filter (\<lambda>s. 20 < length s) (trimmed_seqs c ?mq)"
    by (simp add: kept_seqs_def)
  show "consensus al c = Inr ([], 0)" if "kept_seqs c ?mq = []"
    using c that by (rule consensus_no_seqs)
  show "consensus al c = Inr (s, 1)"
    if "kept_seqs c ?mq \<noteq> [] \<and> (\<forall>t \<in> set (kept_seqs c ?mq). t = s)" for s
    using c that by (auto intro: consensus_all_equal)
  show "consensus al c = Inr (seq (sr_read r0), 1)"
    if h: "rs = [] \<and> qualtrim (sr_read r0) ?mq = seq (sr_read r0) \<and> 20 < length (seq (sr_read r0))"
  proof -
    from c h have "kept_seqs c ?mq = [seq (sr_read r0)]"
      by (simp add: kept_seqs_def trimmed_seqs_def)
    with c show ?thesis by (simp add: consensus_def)
  qed
qed

text \<open>
  The theorem at the cluster of the single read of 30 bases of high quality: its
  sequence is returned with score 1.
\<close>

theorem consensus_short_cases_witness:
  "cl_reads cluster_a = split_a # []
   \<and> qualtrim (sr_read split_a) (sr_minqual split_a) = seq (sr_read split_a)
   \<and> 20 < length (seq (sr_read split_a))
   \<and> kept_seqs cluster_a (sr_minqual split_a) = [''ACGTACGTACGTACGTACGTACGTACGTAC'']
   \<and> consensus align_unused cluster_a = Inr (''ACGTACGTACGTACGTACGTACGTACGTAC'', 1)"
proof -
  have h1: "cl_reads cluster_a = split_a # []" by (simp add: cluster_a_def)
  have h2: "qualtrim (sr_read split_a) (sr_minqual split_a) = seq (sr_read split_a)"
    by code_simp
  have h3: "20 < length (seq (sr_read split_a))" by code_simp
  have h4: "kept_seqs cluster_a (sr_minqual split_a) = [''ACGTACGTACGTACGTACGTACGTACGTAC'']"
    by code_simp
  have s: "seq (sr_read split_a) = ''ACGTACGTACGTACGTACGTACGTACGTAC''" by code_simp
  from consensus_short_cases [of cluster_a split_a "[]" align_unused] h1 h2 h3
  have "consensus align_unused cluster_a = Inr (seq (sr_read split_a), 1)" by blast
  with h1 h2 h3 h4 s show ?thesis by simp
qed

text \<open>
  As stated, the claim fails: the trimmed sequences of the two reads of exactly 20
  bases are equal and not shorter than 20 bases, yet both are discarded, and the
  consensus of their cluster is the empty sequence with score 0.
\<close>

theorem consensus_discards_20_bases:
  "add_splitread empty_cluster split_20
     = Inr \<lparr>cl_reads = [split_20], cl_start = 1000, cl_end = 1000, cl_median = 1000,
            cl_chrom = Some ''chr1''\<rparr>
   \<and> add_splitread \<lparr>cl_reads = [split_20], cl_start = 1000, cl_end = 1000, cl_median = 1000,
            cl_chrom = Some ''chr1''\<rparr> split_20 = Inr cluster_20
   \<and> trimmed_seqs cluster_20 35 = [''ACGTACGTACGTACGTACGT'', ''ACGTACGTACGTACGTACGT'']
   \<and> length ''ACGTACGTACGTACGTACGT'' = 20
   \<and> consensus align_unused cluster_20 = Inr ([], 0)"
  by code_simp

section \<open>build_insertions\<close>

lemma be_dict_of_Some:
  "be_dict_of bes u = Some b \<Longrightarrow> b \<in> set bes \<and> be_uuid b = u"
  by (auto simp: be_dict_of_def dest!: map_of_SomeD)

lemma be_dict_of_defined:
  "u \<in> be_uuid ` set bes \<Longrightarrow> \<exists>b. be_dict_of bes u = Some b"
proof -
  assume "u \<in> be_uuid ` set bes"
  then have "u \<in> fst ` set (rev (map (\<lambda>be. (be_uuid be, be)) bes))"
    by (auto simp: image_iff)
  then have "map_of (rev (map (\<lambda>be. (be_uuid be, be)) bes)) u \<noteq> None"
    by (simp only: map_of_eq_None_iff not_not)
  then show ?thesis by (auto simp: be_dict_of_def)
qed

lemma pair_found_good:
  assumes "b1 \<in> set bes"
    and "\<forall>iv \<in> set found. snd (snd iv) \<in> be_uuid ` set bes"
    and "\<forall>p \<in> set ps. fst p \<in> be_uuid ` set bes \<and> fst (snd p) \<in> be_uuid ` set bes \<and> fst p \<noteq> fst (snd p)"
  shows "\<exists>ps' ck'. pair_found score (be_dict_of bes) maxdist b1 found (ps, ck) = Inr (ps', ck')
     \<and> (\<forall>p \<in> set ps'. fst p \<in> be_uuid ` set bes \<and> fst (snd p) \<in> be_uuid ` set bes \<and> fst p \<noteq> fst (snd p))"
  using assms
proof (induction found arbitrary: ps ck)
  case Nil
  then show ?case by simp
next
  case (Cons iv found)
  obtain s e v where iv: "iv = (s, e, v)" by (cases iv) auto
  from Cons.prems(2) iv have "v \<in> be_uuid ` set bes" by simp
  then obtain b2 where b2: "be_dict_of bes v = Some b2" using be_dict_of_defined by blast
  then have b2in: "b2 \<in> set bes" "be_uuid b2 = v" using be_dict_of_Some by blast+
  let ?pn = "pair_name (be_uuid b1) (be_uuid b2)"
  let ?ps1 = "(if be_uuid b1 \<noteq> be_uuid b2 \<and> be_direction b1 \<noteq> be_direction b2 \<and> ?pn \<notin> set ck
               then (if \<bar>be_breakpos b1 - be_breakpos b2\<bar> \<le> maxdist
                     then ps @ [(be_uuid b1, be_uuid b2, score b1 b2)] else ps)
               else ps)"
  have good: "\<forall>p \<in> set ?ps1. fst p \<in> be_uuid ` set bes \<and> fst (snd p) \<in> be_uuid ` set bes \<and> fst p \<noteq> fst (snd p)"
    using Cons.prems(1,3) b2in by auto
  have rest: "\<forall>iv \<in> set found. snd (snd iv) \<in> be_uuid ` set bes" using Cons.prems(2) by simp
  from Cons.IH [OF Cons.prems(1) rest good, of "?pn # ck"]
  show ?case by (simp add: iv b2 Let_def)
qed

lemma pair_all_good:
  assumes "set bs \<subseteq> set bes"
    and "\<forall>s e. \<forall>iv \<in> set (itree_find itree s e). snd (snd iv) \<in> be_uuid ` set bes"
    and "\<forall>p \<in> set (fst st). fst p \<in> be_uuid ` set bes \<and> fst (snd p) \<in> be_uuid ` set bes \<and> fst p \<noteq> fst (snd p)"
  shows "\<exists>st'. pair_all itree_find score (be_dict_of bes) itree maxdist bs st = Inr st'
     \<and> (\<forall>p \<in> set (fst st'). fst p \<in> be_uuid ` set bes \<and> fst (snd p) \<in> be_uuid ` set bes \<and> fst p \<noteq> fst (snd p))"
  using assms
proof (induction bs arbitrary: st)
  case Nil
  then show ?case by simp
next
  case (Cons b1 bs)
  obtain ps ck where st: "st = (ps, ck)" by (cases st) auto
  have b1: "b1 \<in> set bes" using Cons.prems(1) by simp
  have f: "\<forall>iv \<in> set (itree_find itree (be_breakpos b1) (be_breakpos b1 + 1)). snd (snd iv) \<in> be_uuid ` set bes"
    using Cons.prems(2) by blast
  from pair_found_good [OF b1 f, of ps score maxdist ck] Cons.prems(3) st
  obtain ps' ck' where r: "pair_found score (be_dict_of bes) maxdist b1
        (itree_find itree (be_breakpos b1) (be_breakpos b1 + 1)) (ps, ck) = Inr (ps', ck')"
    and g: "\<forall>p \<in> set ps'. fst p \<in> be_uuid ` set bes \<and> fst (snd p) \<in> be_uuid ` set bes \<and> fst p \<noteq> fst (snd p)"
    by auto
  have sub: "set bs \<subseteq> set bes" using Cons.prems(1) by simp
  from Cons.IH [OF sub Cons.prems(2), of "(ps', ck')"] g
  show ?case by (simp add: st r)
qed


lemma Insertion_init_pair:
  "set (ins_breakends (Insertion_init (Some a) (Some b))) = {a, b}
   \<and> mset (map f (ins_breakends (Insertion_init (Some a) (Some b)))) = {#f a, f b#}
   \<and> paired (Insertion_init (Some a) (Some b))"
  by (auto simp: Insertion_init_def paired_def ins_breakends_def Let_def)

lemma Insertion_init_single:
  "ins_breakends (Insertion_init (Some a) None) = [a]
   \<and> \<not> paired (Insertion_init (Some a) None)
   \<and> be1 (Insertion_init (Some a) None) = Some a"
  by (simp add: Insertion_init_def paired_def ins_breakends_def Let_def)

lemma accept_pairs_skip:
  assumes "\<not> (u1 \<notin> set used \<and> u2 \<notin> set used)"
  shows "accept_pairs d ((u1, u2, sc) # ps) (ins, used) = accept_pairs d ps (ins, used)"
proof (cases "u1 \<in> set used")
  case True
  then show ?thesis by simp
next
  case False
  with assms have "u2 \<in> set used" by simp
  then show ?thesis by simp
qed

lemma accept_pairs_inv:
  assumes "\<forall>p \<in> set ps. fst p \<in> be_uuid ` set bes \<and> fst (snd p) \<in> be_uuid ` set bes \<and> fst p \<noteq> fst (snd p)"
    and "mset (map be_uuid (concat (map ins_breakends ins))) = mset used"
    and "set (concat (map ins_breakends ins)) \<subseteq> set bes"
    and "distinct used"
    and "\<forall>i \<in> set ins. paired i"
  shows "\<exists>ins' used'. accept_pairs (be_dict_of bes) ps (ins, used) = Inr (ins', used')
     \<and> mset (map be_uuid (concat (map ins_breakends ins'))) = mset used'
     \<and> set (concat (map ins_breakends ins')) \<subseteq> set bes
     \<and> distinct used'
     \<and> (\<forall>i \<in> set ins'. paired i)"
  using assms
proof (induction ps arbitrary: ins used)
  case Nil
  then show ?case by simp
next
  case (Cons p ps)
  obtain u1 u2 sc where p: "p = (u1, u2, sc)" by (cases p) auto
  have rest: "\<forall>p \<in> set ps. fst p \<in> be_uuid ` set bes \<and> fst (snd p) \<in> be_uuid ` set bes \<and> fst p \<noteq> fst (snd p)"
    using Cons.prems(1) by simp
  show ?case
  proof (cases "u1 \<notin> set used \<and> u2 \<notin> set used")
    case False
    then have e: "accept_pairs (be_dict_of bes) (p # ps) (ins, used)
        = accept_pairs (be_dict_of bes) ps (ins, used)"
      unfolding p by (rule accept_pairs_skip)
    show ?thesis
      by (subst e) (rule Cons.IH [OF rest Cons.prems(2-5)])
  next
    case True
    from Cons.prems(1) p have u: "u1 \<in> be_uuid ` set bes" "u2 \<in> be_uuid ` set bes" "u1 \<noteq> u2"
      by auto
    from u(1) obtain b1 where b1: "be_dict_of bes u1 = Some b1" using be_dict_of_defined by blast
    from u(2) obtain b2 where b2: "be_dict_of bes u2 = Some b2" using be_dict_of_defined by blast
    from b1 have b1in: "b1 \<in> set bes" "be_uuid b1 = u1" using be_dict_of_Some by blast+
    from b2 have b2in: "b2 \<in> set bes" "be_uuid b2 = u2" using be_dict_of_Some by blast+
    let ?i = "Insertion_init (Some b1) (Some b2)"
    have si: "set (ins_breakends ?i) = {b1, b2}" and pi: "paired ?i"
      using Insertion_init_pair by blast+
    have "mset (map be_uuid (ins_breakends ?i)) = {#be_uuid b1, be_uuid b2#}"
      using Insertion_init_pair by blast
    then have mu: "mset (map be_uuid (ins_breakends ?i)) = {#u1, u2#}"
      by (simp only: b1in(2) b2in(2))
    have a1: "mset (map be_uuid (concat (map ins_breakends (ins @ [?i])))) = mset (used @ [u1, u2])"
      using Cons.prems(2) mu by simp
    have a2: "set (concat (map ins_breakends (ins @ [?i]))) \<subseteq> set bes"
      using Cons.prems(3) si b1in(1) b2in(1) by simp
    have a3: "distinct (used @ [u1, u2])"
      using Cons.prems(4) True u(3) by simp
    have a4: "\<forall>i \<in> set (ins @ [?i]). paired i"
      using Cons.prems(5) pi by simp
    from True have e: "accept_pairs (be_dict_of bes) (p # ps) (ins, used)
        = accept_pairs (be_dict_of bes) ps (ins @ [?i], used @ [u1, u2])"
      by (simp add: p b1 b2)
    show ?thesis
      by (subst e) (rule Cons.IH [OF rest a1 a2 a3 a4])
  qed
qed

lemma single_ends_inv:
  assumes "set bs \<subseteq> set bes"
    and "mset (map be_uuid (concat (map ins_breakends ins))) = mset used"
    and "set (concat (map ins_breakends ins)) \<subseteq> set bes"
    and "distinct used"
    and "\<forall>i \<in> set ins. be1 i \<noteq> None"
  shows "\<exists>ins' used'. single_ends bs (ins, used) = (ins', used')
     \<and> mset (map be_uuid (concat (map ins_breakends ins'))) = mset used'
     \<and> set (concat (map ins_breakends ins')) \<subseteq> set bes
     \<and> distinct used'
     \<and> (\<forall>i \<in> set ins'. be1 i \<noteq> None)
     \<and> set used \<union> be_uuid ` set bs \<subseteq> set used'
     \<and> filter paired ins' = filter paired ins"
  using assms
proof (induction bs arbitrary: ins used)
  case Nil
  then show ?case by simp
next
  case (Cons b bs)
  have sub: "set bs \<subseteq> set bes" and bin: "b \<in> set bes" using Cons.prems(1) by simp_all
  show ?case
  proof (cases "be_uuid b \<notin> set used")
    case False
    then have e: "single_ends (b # bs) (ins, used) = single_ends bs (ins, used)" by simp
    from Cons.IH [OF sub Cons.prems(2-5)]
    obtain ins' used' where r: "single_ends bs (ins, used) = (ins', used')"
      and k: "mset (map be_uuid (concat (map ins_breakends ins'))) = mset used'"
        "set (concat (map ins_breakends ins')) \<subseteq> set bes" "distinct used'"
        "\<forall>i \<in> set ins'. be1 i \<noteq> None" "set used \<union> be_uuid ` set bs \<subseteq> set used'"
        "filter paired ins' = filter paired ins"
      by blast
    from k(5) False have "set used \<union> be_uuid ` set (b # bs) \<subseteq> set used'" by auto
    with e r k(1-4,6) show ?thesis by simp
  next
    case True
    let ?i = "Insertion_init (Some b) None"
    have i: "ins_breakends ?i = [b]" "\<not> paired ?i" "be1 ?i = Some b"
      using Insertion_init_single by blast+
    from True have e: "single_ends (b # bs) (ins, used)
        = single_ends bs (ins @ [?i], used @ [be_uuid b])" by simp
    have a1: "mset (map be_uuid (concat (map ins_breakends (ins @ [?i])))) = mset (used @ [be_uuid b])"
      using Cons.prems(2) i(1) by simp
    have a2: "set (concat (map ins_breakends (ins @ [?i]))) \<subseteq> set bes"
      using Cons.prems(3) i(1) bin by simp
    have a3: "distinct (used @ [be_uuid b])" using Cons.prems(4) True by simp
    have a4: "\<forall>i \<in> set (ins @ [?i]). be1 i \<noteq> None" using Cons.prems(5) i(3) by simp
    from Cons.IH [OF sub a1 a2 a3 a4]
    obtain ins' used' where r: "single_ends bs (ins @ [?i], used @ [be_uuid b]) = (ins', used')"
      and k: "mset (map be_uuid (concat (map ins_breakends ins'))) = mset used'"
        "set (concat (map ins_breakends ins')) \<subseteq> set bes" "distinct used'"
        "\<forall>i \<in> set ins'. be1 i \<noteq> None"
        "set (used @ [be_uuid b]) \<union> be_uuid ` set bs \<subseteq> set used'"
        "filter paired ins' = filter paired (ins @ [?i])"
      by blast
    from k(5) have k5: "set used \<union> be_uuid ` set (b # bs) \<subseteq> set used'" by auto
    from k(6) i(2) have k6: "filter paired ins' = filter paired ins" by simp
    from e r k(1-4) k5 k6 show ?thesis by simp
  qed
qed


lemma set_sort_by_score_desc: "set (sort_by_score_desc ps) = set ps"
  by (simp add: sort_by_score_desc_def)

lemma distinct_concat_map_filter:
  "distinct (concat (map f xs)) \<Longrightarrow> distinct (concat (map f (filter P xs)))"
proof (induction xs)
  case Nil
  then show ?case by simp
next
  case (Cons x xs)
  then have d: "distinct (f x)" "distinct (concat (map f xs))"
    "set (f x) \<inter> set (concat (map f xs)) = {}" by simp_all
  have sub: "set (concat (map f (filter P xs))) \<subseteq> set (concat (map f xs))" by auto
  from Cons.IH [OF d(2)] d(1,3) sub show ?case by (cases "P x") auto
qed

lemma count_list_distinct_concat:
  "distinct (concat (map f xs)) \<Longrightarrow> x \<in> set xs \<Longrightarrow> f x \<noteq> [] \<Longrightarrow> count_list xs x = 1"
proof (induction xs)
  case Nil
  then show ?case by simp
next
  case (Cons y ys)
  have dy: "distinct (concat (map f ys))"
    and disj: "set (f y) \<inter> set (concat (map f ys)) = {}"
    using Cons.prems(1) by simp_all
  show ?case
  proof (cases "x = y")
    case True
    have "x \<notin> set ys"
    proof
      assume xin: "x \<in> set ys"
      from Cons.prems(3) obtain a where a: "a \<in> set (f x)" by (cases "f x") auto
      with xin have "a \<in> set (concat (map f ys))" by auto
      with a disj True show False by blast
    qed
    then have "count_list ys x = 0" by (rule count_notin)
    with True show ?thesis by simp
  next
    case False
    with Cons.prems(2) have xin: "x \<in> set ys" by simp
    have "count_list ys x = 1" using dy xin Cons.prems(3) by (rule Cons.IH)
    with False show ?thesis by simp
  qed
qed

lemma itree_find_overlap_contract: "\<forall>ivs s e. set (itree_find_overlap ivs s e) \<subseteq> set ivs"
  by (simp add: itree_find_overlap_def)

text \<open>
  Claim C2. For breakends with distinct uuids, and an interval index whose \<^verbatim>\<open>find\<close>
  returns only intervals that were added to it, \<^verbatim>\<open>build_insertions\<close> returns a list
  of insertions (it raises nothing) such that: the breakends of the insertions are the
  input breakends, each exactly once; no uuid occurs twice among the insertions, so
  none occurs in more than one accepted pair; and every breakend that is in no accepted
  pair is the breakend of exactly one single-ended insertion. The score function is
  arbitrary.
\<close>

theorem build_insertions_partition:
  fixes score :: "BreakEnd \<Rightarrow> BreakEnd \<Rightarrow> 's::linorder option"
  assumes d: "distinct (map be_uuid breakends)"
    and f: "\<forall>ivs s e. set (itree_find ivs s e) \<subseteq> set ivs"
  shows "\<exists>insertions.
      build_insertions itree_find score breakends maxdist = Inr insertions
      \<and> mset (concat (map ins_breakends insertions)) = mset breakends
      \<and> distinct (concat (map ins_uuids insertions))
      \<and> distinct (concat (map ins_uuids (filter paired insertions)))
      \<and> (\<forall>b \<in> set breakends.
            b \<notin> set (concat (map ins_breakends (filter paired insertions)))
            \<longrightarrow> count_list insertions \<lparr>be1 = Some b, be2 = None\<rparr> = 1)"
proof -
  let ?U = "be_uuid ` set breakends"
  let ?D = "be_dict_of breakends"
  let ?T = "be_itree_of breakends maxdist"
  have sr: "set breakends \<subseteq> set breakends" by simp
  have tv: "\<forall>iv \<in> set ?T. snd (snd iv) \<in> ?U"
    by (auto simp: be_itree_of_def)
  have fv: "\<forall>s e. \<forall>iv \<in> set (itree_find ?T s e). snd (snd iv) \<in> ?U"
    using f tv by blast
  have g0: "\<forall>p \<in> set (fst (([], []) :: (string \<times> string \<times> 's option) list \<times> string list)).
      fst p \<in> ?U \<and> fst (snd p) \<in> ?U \<and> fst p \<noteq> fst (snd p)"
    by simp
  from pair_all_good [where bs = breakends and bes = breakends and itree_find = itree_find
      and itree = ?T and st = "([], [])" and score = score and maxdist = maxdist, OF sr fv g0]
  obtain ps ck where r1: "pair_all itree_find score ?D ?T maxdist breakends ([], []) = Inr (ps, ck)"
    and g1: "\<forall>p \<in> set ps. fst p \<in> ?U \<and> fst (snd p) \<in> ?U \<and> fst p \<noteq> fst (snd p)"
    by auto
  let ?ps1 = "map (\<lambda>(u, v, sc). (u, v, the sc)) (filter (\<lambda>(u, v, sc). sc \<noteq> None) ps)"
  let ?ps2 = "sort_by_score_desc ?ps1"
  have g2: "\<forall>p \<in> set ?ps2. fst p \<in> ?U \<and> fst (snd p) \<in> ?U \<and> fst p \<noteq> fst (snd p)"
    using g1 by (auto simp: set_sort_by_score_desc)
  have e1: "mset (map be_uuid (concat (map ins_breakends ([] :: Insertion list)))) = mset ([] :: string list)"
    by simp
  have e2: "set (concat (map ins_breakends ([] :: Insertion list))) \<subseteq> set breakends" by simp
  have e3: "distinct ([] :: string list)" by simp
  have e4: "\<forall>i \<in> set ([] :: Insertion list). paired i" by simp
  from accept_pairs_inv [OF g2 e1 e2 e3 e4]
  obtain ins1 used1 where r2: "accept_pairs ?D ?ps2 ([], []) = Inr (ins1, used1)"
    and k1: "mset (map be_uuid (concat (map ins_breakends ins1))) = mset used1"
      "set (concat (map ins_breakends ins1)) \<subseteq> set breakends" "distinct used1"
      "\<forall>i \<in> set ins1. paired i"
    by blast
  from k1(4) have k1': "\<forall>i \<in> set ins1. be1 i \<noteq> None" by (simp add: paired_def)
  from single_ends_inv [OF sr k1(1-3) k1']
  obtain ins2 used2 where r3: "single_ends breakends (ins1, used1) = (ins2, used2)"
    and k2: "mset (map be_uuid (concat (map ins_breakends ins2))) = mset used2"
      "set (concat (map ins_breakends ins2)) \<subseteq> set breakends" "distinct used2"
      "\<forall>i \<in> set ins2. be1 i \<noteq> None" "set used1 \<union> ?U \<subseteq> set used2"
      "filter paired ins2 = filter paired ins1"
    by blast
  have res: "build_insertions itree_find score breakends maxdist = Inr ins2"
    by (simp only: build_insertions_def Let_def r1 r2 r3 sum.case prod.case fst_conv)
  let ?B = "concat (map ins_breakends ins2)"
  have su: "set used2 = be_uuid ` set ?B"
    using k2(1) by (metis mset_eq_setD set_map)
  have dB: "distinct (map be_uuid ?B)"
    using k2(1,3) by (metis mset_eq_imp_distinct_iff)
  then have dB': "distinct ?B" by (simp add: distinct_map)
  have inj: "inj_on be_uuid (set breakends)" and db: "distinct breakends"
    using d by (simp_all add: distinct_map)
  have "set breakends \<subseteq> set ?B"
  proof
    fix b assume b: "b \<in> set breakends"
    then have "be_uuid b \<in> set used2" using k2(5) by blast
    then have "be_uuid b \<in> be_uuid ` set ?B" by (simp only: su)
    then obtain b' where b': "be_uuid b = be_uuid b'" "b' \<in> set ?B" by (rule imageE)
    from b'(2) k2(2) have "b' \<in> set breakends" by blast
    with inj b b'(1) have "b' = b" by (auto dest: inj_onD)
    with b'(2) show "b \<in> set ?B" by simp
  qed
  with k2(2) have sB: "set ?B = set breakends" by blast
  have c1: "mset ?B = mset breakends"
    using set_eq_iff_mset_eq_distinct [OF dB' db] sB by blast
  have "ins_uuids = (\<lambda>i. map be_uuid (ins_breakends i))"
    by (rule ext) (simp add: ins_uuids_def)
  then have uu: "concat (map ins_uuids ins2) = map be_uuid ?B"
    by (simp add: map_concat comp_def)
  have c2: "distinct (concat (map ins_uuids ins2))" using dB uu by simp
  have c3: "distinct (concat (map ins_uuids (filter paired ins2)))"
    using c2 by (rule distinct_concat_map_filter)
  have c4: "count_list ins2 \<lparr>be1 = Some b, be2 = None\<rparr> = 1"
    if b: "b \<in> set breakends" and nb: "b \<notin> set (concat (map ins_breakends (filter paired ins2)))" for b
  proof -
    from b sB obtain i where i: "i \<in> set ins2" "b \<in> set (ins_breakends i)" by auto
    have np: "\<not> paired i"
    proof
      assume "paired i"
      with i have "b \<in> set (concat (map ins_breakends (filter paired ins2)))" by auto
      with nb show False by simp
    qed
    from k2(4) i(1) obtain x where x: "be1 i = Some x" by auto
    with np have y: "be2 i = None" by (simp add: paired_def)
    from x y i(2) have "x = b" by (simp add: ins_breakends_def)
    with x y have ie: "i = \<lparr>be1 = Some b, be2 = None\<rparr>" by simp
    have ne: "ins_breakends \<lparr>be1 = Some b, be2 = None\<rparr> \<noteq> []" by (simp add: ins_breakends_def)
    have "distinct (concat (map ins_breakends ins2))" by (rule dB')
    then show ?thesis using i(1) ne unfolding ie by (rule count_list_distinct_concat)
  qed
  from res c1 c2 c3 c4 show ?thesis by blast
qed

text \<open>
  The theorem at three breakends: the breakends at 105 and at 100, of opposite
  directions, are paired (and swapped into position order), the one at 500 is
  single-ended.
\<close>

theorem build_insertions_partition_witness:
  "distinct (map be_uuid [breakend_a, breakend_b, breakend_c])
   \<and> build_insertions itree_find_overlap score_one [breakend_a, breakend_b, breakend_c] 100
       = Inr [\<lparr>be1 = Some breakend_b, be2 = Some breakend_a\<rparr>, \<lparr>be1 = Some breakend_c, be2 = None\<rparr>]
   \<and> count_list [\<lparr>be1 = Some breakend_b, be2 = Some breakend_a\<rparr>, \<lparr>be1 = Some breakend_c, be2 = None\<rparr>]
        \<lparr>be1 = Some breakend_c, be2 = None\<rparr> = 1"
proof -
  let ?r = "[\<lparr>be1 = Some breakend_b, be2 = Some breakend_a\<rparr>, \<lparr>be1 = Some breakend_c, be2 = None\<rparr>]"
  have h1: "distinct (map be_uuid [breakend_a, breakend_b, breakend_c])"
    by (simp add: breakend_a_def breakend_b_def breakend_c_def)
  have e: "build_insertions itree_find_overlap score_one [breakend_a, breakend_b, breakend_c] 100 = Inr ?r"
    by code_simp
  from build_insertions_partition [OF h1 itree_find_overlap_contract, of score_one 100]
  obtain insertions where
    r: "build_insertions itree_find_overlap score_one [breakend_a, breakend_b, breakend_c] 100 = Inr insertions"
    and c: "\<forall>b \<in> set [breakend_a, breakend_b, breakend_c].
          b \<notin> set (concat (map ins_breakends (filter paired insertions)))
          \<longrightarrow> count_list insertions \<lparr>be1 = Some b, be2 = None\<rparr> = 1"
    by blast
  from r e have ie: "insertions = ?r" by simp
  have cin: "breakend_c \<in> set [breakend_a, breakend_b, breakend_c]" by simp
  have nb: "breakend_c \<notin> set (concat (map ins_breakends (filter paired ?r)))"
    by (simp add: paired_def ins_breakends_def breakend_a_def breakend_b_def breakend_c_def)
  have "count_list ?r \<lparr>be1 = Some breakend_c, be2 = None\<rparr> = 1"
    by (rule c [rule_format, OF cin, unfolded ie, OF nb])
  with h1 e show ?thesis by (intro conjI)
qed

section \<open>Rounding to a double\<close>

text \<open>
  The normaliser keeps the value and ends with a significand of 53 bits; rounding the
  significand moves it by at most one half; so a positive number below \<open>2 ^ 53\<close> and
  not below the subnormal range rounds to a double within a relative error of
  \<open>2 ^ -53\<close>, and an integer from 0 to \<open>2 ^ 53 - 1\<close> is a double.
\<close>


lemma pow2_pos: "0 < pow2 e"
  by (simp add: pow2_def)

lemma pow2_zero: "pow2 0 = 1"
  by (simp add: pow2_def)

lemma pow2_succ: "pow2 (e + 1) = 2 * pow2 e"
proof (cases "0 \<le> e")
  case True
  then have "nat (e + 1) = Suc (nat e)" by simp
  with True show ?thesis by (simp add: pow2_def)
next
  case False
  then have "nat (- e) = Suc (nat (- (e + 1)))" by simp
  with False show ?thesis by (simp add: pow2_def)
qed

lemma pow2_pred: "2 * pow2 (e - 1) = pow2 e"
  using pow2_succ [of "e - 1"] by simp

lemma pow2_le_one: "e \<le> 0 \<Longrightarrow> pow2 e \<le> 1"
  by (simp add: pow2_def divide_le_eq_1)


lemma double_norm_inv:
  "0 < q \<Longrightarrow> double_norm p q e = (s, t, e') \<Longrightarrow>
     0 < t \<and> of_int s / of_int t * pow2 e' = (of_int p / of_int q * pow2 e :: rat)"
proof (induction p q e rule: double_norm.induct)
  case (1 p q e)
  show ?case
  proof (cases "p < 4503599627370496 * q \<and> - 1074 < e")
    case True
    with "1.prems" have r: "double_norm (2 * p) q (e - 1) = (s, t, e')"
      by (simp add: double_norm.simps [of p q e])
    from "1.IH"(1) [OF True "1.prems"(1) r]
    have "0 < t" and "of_int s / of_int t * pow2 e' = (of_int (2 * p) / of_int q * pow2 (e - 1) :: rat)"
      by simp_all
    moreover have "(of_int (2 * p) / of_int q * pow2 (e - 1) :: rat) = of_int p / of_int q * pow2 e"
      using pow2_pred [of e] by (simp add: field_simps)
    ultimately show ?thesis by simp
  next
    case False
    show ?thesis
    proof (cases "0 < q \<and> 9007199254740992 * q \<le> p")
      case True
      with False "1.prems" have r: "double_norm p (2 * q) (e + 1) = (s, t, e')"
        by (auto simp: double_norm.simps [of p q e])
      have q2: "0 < 2 * q" using "1.prems"(1) by simp
      from "1.IH"(2) [OF False True q2 r]
      have "0 < t" and "of_int s / of_int t * pow2 e' = (of_int p / of_int (2 * q) * pow2 (e + 1) :: rat)"
        by simp_all
      moreover have "(of_int p / of_int (2 * q) * pow2 (e + 1) :: rat) = of_int p / of_int q * pow2 e"
        using "1.prems"(1) by (subst pow2_succ) (simp add: field_simps)
      ultimately show ?thesis by simp
    next
      case F2: False
      with False "1.prems" have "(s, t, e') = (p, q, e)"
        by (auto simp: double_norm.simps [of p q e])
      with "1.prems"(1) show ?thesis by simp
    qed
  qed
qed


lemma double_norm_low:
  "0 < q \<Longrightarrow> p < 9007199254740992 * q \<Longrightarrow> 4503599627370496 * q \<le> p * 2 ^ k \<Longrightarrow>
   - 1074 \<le> e - int k \<Longrightarrow>
   (case double_norm p q e of (s, t, e') \<Rightarrow> 4503599627370496 * t \<le> s \<and> t = q \<and> e' \<le> e)"
proof (induction k arbitrary: p e)
  case 0
  then have "\<not> p < 4503599627370496 * q" by simp
  with 0 show ?case by (simp add: double_norm.simps [of p q e])
next
  case (Suc k)
  show ?case
  proof (cases "p < 4503599627370496 * q")
    case False
    with Suc.prems show ?thesis by (simp add: double_norm.simps [of p q e])
  next
    case True
    from Suc.prems(4) have e: "- 1074 < e" by simp
    have a: "2 * p < 9007199254740992 * q" using True by simp
    have b: "4503599627370496 * q \<le> (2 * p) * 2 ^ k" using Suc.prems(3) by (simp add: mult.assoc mult.left_commute)
    have c: "- 1074 \<le> (e - 1) - int k" using Suc.prems(4) by simp
    from Suc.IH [OF Suc.prems(1) a b c]
    have "case double_norm (2 * p) q (e - 1) of (s, t, e') \<Rightarrow> 4503599627370496 * t \<le> s \<and> t = q \<and> e' \<le> e - 1" .
    moreover have "double_norm p q e = double_norm (2 * p) q (e - 1)"
      using True e by (simp add: double_norm.simps [of p q e])
    ultimately show ?thesis by (auto split: prod.splits)
  qed
qed


lemma round_half_even_error:
  assumes "0 < t"
  shows "\<bar>of_int (round_half_even s t) - (of_int s / of_int t :: rat)\<bar> \<le> 1 / 2"
proof -
  define f where "f = s div t"
  define r where "r = s mod t"
  have r: "0 \<le> r" "r < t" using assms by (simp_all add: r_def)
  have s: "s = t * f + r" by (simp add: f_def r_def)
  have q: "(of_int s / of_int t :: rat) = of_int f + of_int r / of_int t"
    using assms by (simp add: s field_simps)
  have tpos: "(0::rat) < of_int t" using assms by simp
  consider "2 * r < t" | "t < 2 * r" | "t = 2 * r" by linarith
  then show ?thesis
  proof cases
    case 1
    then have "round_half_even s t = f" by (simp add: round_half_even_def f_def r_def Let_def)
    moreover have "(of_int r / of_int t :: rat) \<le> 1 / 2"
      using 1 tpos by (simp add: field_simps)
    moreover have "(0::rat) \<le> of_int r / of_int t" using r tpos by simp
    ultimately show ?thesis by (simp add: q)
  next
    case 2
    then have "round_half_even s t = f + 1" by (simp add: round_half_even_def f_def r_def Let_def)
    moreover have "(1 / 2 :: rat) \<le> of_int r / of_int t"
      using 2 tpos by (simp add: field_simps)
    moreover have "(of_int r / of_int t :: rat) \<le> 1" using r tpos by simp
    ultimately show ?thesis by (simp add: q)
  next
    case 3
    then have c: "round_half_even s t = f \<or> round_half_even s t = f + 1"
      by (simp add: round_half_even_def f_def r_def Let_def)
    have "(of_int r / of_int t :: rat) = 1 / 2"
      using 3 tpos by (simp add: field_simps)
    then have h: "(of_int s / of_int t :: rat) = of_int f + 1 / 2" by (simp only: q)
    from c show ?thesis
    proof
      assume "round_half_even s t = f"
      then show ?thesis by (simp add: h)
    next
      assume "round_half_even s t = f + 1"
      then show ?thesis by (simp add: h)
    qed
  qed
qed


lemma round_half_even_one: "round_half_even s 1 = s"
  by (simp add: round_half_even_def)

lemma round_half_even_nonneg: "0 \<le> s \<Longrightarrow> 0 < t \<Longrightarrow> 0 \<le> round_half_even s t"
proof -
  assume a: "0 \<le> s" "0 < t"
  then have "0 \<le> s div t" by (simp add: pos_imp_zdiv_nonneg_iff)
  then show ?thesis by (simp add: round_half_even_def Let_def)
qed

lemma py_float_small_int:
  assumes "0 \<le> n" and "n < 9007199254740992"
  shows "py_float (of_int n) = Inr (of_int n)"
proof (cases "n = 0")
  case True
  then show ?thesis by (simp add: py_float_def)
next
  case False
  with assms have n: "0 < n" by simp
  then have ab: "\<bar>of_int n :: rat\<bar> = of_int n" by simp
  have qo: "quotient_of (of_int n) = (n, 1)" by (simp add: of_int_rat quotient_of_Fract)
  have a: "(0::int) < 1" by simp
  have b: "n < 9007199254740992 * 1" using assms(2) by simp
  have c: "4503599627370496 * 1 \<le> n * 2 ^ 52" using n by simp
  have d: "- 1074 \<le> (0::int) - int 52" by simp
  obtain s t e' where r: "double_norm n 1 0 = (s, t, e')" by (cases "double_norm n 1 0") auto
  from double_norm_low [OF a b c d] r have l: "t = 1" "e' \<le> 0" by simp_all
  from double_norm_inv [OF a r] l(1) have i: "of_int s * pow2 e' = (of_int n :: rat)"
    by (simp add: pow2_zero)
  have dp: "double_parts (of_int n) = (s, e')"
    by (simp add: double_parts_def ab qo r l(1) round_half_even_one)
  have "py_float (of_int n) = Inr (sgn (of_int n :: rat) * of_int s * pow2 e')"
    using False l(2) by (simp add: py_float_def dp)
  also have "sgn (of_int n :: rat) = 1" using n by simp
  finally show ?thesis using i by simp
qed

lemma py_float_pos:
  assumes x: "0 < x" and hi: "x < 9007199254740992" and lo: "4503599627370496 \<le> x * 2 ^ k"
    and k: "k \<le> 1074"
  shows "\<exists>y. py_float x = Inr y \<and> 0 \<le> y \<and> \<bar>y - x\<bar> \<le> x / 9007199254740992"
proof -
  obtain p q where qo: "quotient_of x = (p, q)" by (cases "quotient_of x") auto
  then have q: "0 < q" and xe: "x = of_int p / of_int q"
    by (simp_all add: quotient_of_denom_pos quotient_of_div)
  have qr: "(0::rat) < of_int q" using q by simp
  from x xe qr have p: "0 < p" by (simp add: zero_less_divide_iff)
  have "of_int p < (9007199254740992 :: rat) * of_int q"
    using hi qr by (simp add: xe pos_divide_less_eq)
  then have "(of_int p :: rat) < of_int (9007199254740992 * q)" by simp
  then have b: "p < 9007199254740992 * q" by (simp only: of_int_less_iff)
  have "(4503599627370496 :: rat) * of_int q \<le> of_int p * 2 ^ k"
    using lo qr by (simp add: xe pos_le_divide_eq field_simps)
  then have "(of_int (4503599627370496 * q) :: rat) \<le> of_int (p * 2 ^ k)" by simp
  then have c: "4503599627370496 * q \<le> p * 2 ^ k" by (simp only: of_int_le_iff)
  have d: "- 1074 \<le> (0::int) - int k" using k by simp
  obtain s t e' where r: "double_norm p q 0 = (s, t, e')" by (cases "double_norm p q 0") auto
  from double_norm_low [OF q b c d] r have l: "4503599627370496 * t \<le> s" "t = q" "e' \<le> 0"
    by simp_all
  from double_norm_inv [OF q r] have t: "0 < t" and i: "of_int s / of_int t * pow2 e' = x"
    by (simp_all add: xe pow2_zero)
  have tr: "(0::rat) < of_int t" using t by simp
  define m where "m = round_half_even s t"
  have s0: "0 \<le> s" using l(1) t by linarith
  have m0: "0 \<le> m" unfolding m_def using s0 t by (rule round_half_even_nonneg)
  have me: "\<bar>of_int m - (of_int s / of_int t :: rat)\<bar> \<le> 1 / 2"
    unfolding m_def using t by (rule round_half_even_error)
  have ab: "\<bar>x\<bar> = x" using x by simp
  have dp: "double_parts x = (m, e')"
    by (simp add: double_parts_def ab qo r m_def)
  have sg: "sgn x = 1" using x by simp
  define y where "y = of_int m * pow2 e'"
  have pf: "py_float x = Inr y"
    using x l(3) by (simp add: py_float_def dp sg y_def)
  have y0: "0 \<le> y" unfolding y_def using m0 pow2_pos [of e'] by simp
  have "y - x = (of_int m - of_int s / of_int t) * pow2 e'"
    unfolding y_def i [symmetric] by (simp add: algebra_simps)
  then have "\<bar>y - x\<bar> = \<bar>of_int m - (of_int s / of_int t :: rat)\<bar> * pow2 e'"
    using pow2_pos [of e'] by (simp add: abs_mult)
  also have "\<dots> \<le> 1 / 2 * pow2 e'"
    using me pow2_pos [of e'] by (intro mult_right_mono) simp_all
  finally have e1: "\<bar>y - x\<bar> \<le> pow2 e' / 2" by simp
  have "(of_int (4503599627370496 * t) :: rat) \<le> of_int s" using l(1) by (simp only: of_int_le_iff)
  then have "(4503599627370496 :: rat) \<le> of_int s / of_int t"
    using tr by (simp add: pos_le_divide_eq)
  then have "4503599627370496 * pow2 e' \<le> of_int s / of_int t * pow2 e'"
    using pow2_pos [of e'] by (intro mult_right_mono) simp_all
  then have "4503599627370496 * pow2 e' \<le> x" by (simp only: i)
  then have "pow2 e' / 2 \<le> x / 9007199254740992" by simp
  with e1 have "\<bar>y - x\<bar> \<le> x / 9007199254740992" by linarith
  with pf y0 show ?thesis by blast
qed

section \<open>The share of a bucket as a float\<close>

text \<open>
  The float share differs from the exact share \<open>n * max_fetch / tot\<close> by less than
  \<open>1 / tot\<close> when the total is at most \<open>2 ^ 25\<close>; so \<^verbatim>\<open>int()\<close> of it is the integer part
  of the exact share, or one less, and the latter only when the exact share is whole.
\<close>


lemma floor_near_quotient:
  fixes w :: rat and a t :: int
  assumes t: "0 < t" and near: "\<bar>w - of_int a / of_int t\<bar> < 1 / of_int t"
  shows "a div t - 1 \<le> \<lfloor>w\<rfloor> \<and> \<lfloor>w\<rfloor> \<le> a div t \<and> (a mod t \<noteq> 0 \<longrightarrow> \<lfloor>w\<rfloor> = a div t)"
proof -
  define k where "k = a div t"
  define r where "r = a mod t"
  have r: "0 \<le> r" "r < t" using t by (simp_all add: r_def)
  have a: "a = t * k + r" by (simp add: k_def r_def)
  have tr: "(0::rat) < of_int t" using t by simp
  have q: "(of_int a / of_int t :: rat) = of_int k + of_int r / of_int t"
    using t by (simp add: a field_simps)
  from near have up: "w < of_int k + of_int r / of_int t + 1 / of_int t"
    and dn: "of_int k + of_int r / of_int t - 1 / of_int t < w"
    unfolding q by linarith+
  have "(of_int r + 1 :: rat) \<le> of_int t" using r(2) by (metis of_int_1 of_int_add of_int_le_iff zless_imp_add1_zle)
  then have "(of_int r + 1) / of_int t \<le> (1::rat)" using tr by (simp add: divide_le_eq_1)
  then have "of_int r / of_int t + 1 / of_int t \<le> (1::rat)" by (simp add: add_divide_distrib)
  with up have "w < of_int (k + 1)" by simp
  then have "\<lfloor>w\<rfloor> < k + 1" by (simp only: floor_less_iff)
  then have hi: "\<lfloor>w\<rfloor> \<le> k" by simp
  have "(1::rat) \<le> of_int t" using t by (metis of_int_1 of_int_le_iff int_one_le_iff_zero_less)
  then have ot: "1 / of_int t \<le> (1::rat)" using tr by (simp add: divide_le_eq_1)
  have r0: "(0::rat) \<le> of_int r / of_int t" using r(1) tr by simp
  from dn ot r0 have "of_int (k - 1) \<le> w" by simp
  then have lo: "k - 1 \<le> \<lfloor>w\<rfloor>" by (simp only: le_floor_iff)
  have ex: "\<lfloor>w\<rfloor> = k" if "r \<noteq> 0"
  proof -
    from that r(1) have "1 \<le> r" by simp
    then have "(1::rat) \<le> of_int r" by (metis of_int_1 of_int_le_iff)
    then have "1 / of_int t \<le> (of_int r / of_int t :: rat)" using tr by (simp add: divide_right_mono)
    with dn have "of_int k \<le> w" by linarith
    then have "k \<le> \<lfloor>w\<rfloor>" by (simp only: le_floor_iff)
    with hi show ?thesis by simp
  qed
  from lo hi ex show ?thesis unfolding k_def r_def by blast
qed

lemma share_error:
  fixes x y z w c :: rat
  assumes x: "0 < x" "x \<le> 1" and c: "0 \<le> c"
    and y: "\<bar>y - x\<bar> \<le> x / 9007199254740992"
    and z: "z = y * c"
    and w: "\<bar>w - z\<bar> \<le> z / 9007199254740992"
  shows "\<bar>w - x * c\<bar> \<le> 3 * c / 9007199254740992"
proof -
  have y2: "y \<le> 2" and y0: "0 \<le> y" using x y by linarith+
  have zc: "z \<le> 2 * c" unfolding z using y2 c by (simp add: mult_right_mono)
  have "\<bar>z - x * c\<bar> = \<bar>y - x\<bar> * c" unfolding z using c by (simp add: abs_mult left_diff_distrib [symmetric])
  also have "\<dots> \<le> x / 9007199254740992 * c" using y c by (rule mult_right_mono)
  also have "\<dots> \<le> 1 / 9007199254740992 * c" using x c by (intro mult_right_mono) simp_all
  finally have e1: "\<bar>z - x * c\<bar> \<le> c / 9007199254740992" by simp
  have e2: "\<bar>w - z\<bar> \<le> 2 * c / 9007199254740992" using w zc by linarith
  from e1 e2 show ?thesis by linarith
qed


lemma float_share_zero:
  assumes "0 < t" "t < 9007199254740992" "0 \<le> c" "c < 9007199254740992"
  shows "float_share 0 t c = Inr 0"
proof -
  have ft: "py_float (of_int t) = Inr (of_int t)" using assms(1,2) by (intro py_float_small_int) simp_all
  have fc: "py_float (of_int c) = Inr (of_int c)" using assms(3,4) by (rule py_float_small_int)
  have f0: "py_float 0 = Inr 0" by (simp add: py_float_def)
  show ?thesis using assms(1) by (simp add: float_share_def ft fc f0)
qed

lemma float_share_bounds:
  assumes m: "0 \<le> m" "m \<le> t" and t: "0 < t" "t \<le> 33554432" and c: "0 \<le> c" "c < t"
  shows "\<exists>w. float_share m t c = Inr w \<and> 0 \<le> py_int w
           \<and> (m * c) div t - 1 \<le> py_int w \<and> py_int w \<le> (m * c) div t
           \<and> ((m * c) mod t \<noteq> 0 \<longrightarrow> py_int w = (m * c) div t)"
proof -
  have ft: "py_float (of_int t) = Inr (of_int t)" using t by (intro py_float_small_int) simp_all
  have fm: "py_float (of_int m) = Inr (of_int m)" using m t by (intro py_float_small_int) simp_all
  have fc: "py_float (of_int c) = Inr (of_int c)" using c t by (intro py_float_small_int) simp_all
  have f0: "py_float 0 = Inr 0" by (simp add: py_float_def)
  have tr: "(0::rat) < of_int t" using t by simp
  have fs: "float_share m t c =
      (case py_float (of_int m / of_int t) of Inl e \<Rightarrow> Inl e | Inr y \<Rightarrow> py_float (y * of_int c))"
    using t(1) by (simp add: float_share_def ft fm fc split: sum.splits)
  show ?thesis
  proof (cases "m = 0")
    case True
    have "float_share 0 t c = Inr 0" using t c by (intro float_share_zero) simp_all
    then show ?thesis using True by (simp add: py_int_def)
  next
    case False
    with m have mp: "1 \<le> m" by simp
    define x :: rat where "x = of_int m / of_int t"
    have x0: "0 < x" unfolding x_def using mp tr by simp
    have x1: "x \<le> 1" unfolding x_def using m(2) tr by (simp add: divide_le_eq_1)
    have "(1::rat) / 33554432 \<le> of_int m / of_int t"
      using mp t tr by (intro frac_le) simp_all
    then have xl: "1 / 33554432 \<le> x" by (simp only: x_def)
    have p77: "(2::rat) ^ 77 = 151115727451828646838272" by simp
    have lo: "4503599627370496 \<le> x * 2 ^ 77" unfolding p77 using xl by linarith
    have hi: "x < 9007199254740992" using x1 by linarith
    from py_float_pos [OF x0 hi lo]
    obtain y where y: "py_float x = Inr y" "0 \<le> y" "\<bar>y - x\<bar> \<le> x / 9007199254740992"
      by auto
    have fs2: "float_share m t c = py_float (y * of_int c)"
      using y(1) by (simp add: fs x_def [symmetric])
    show ?thesis
    proof (cases "c = 0")
      case True
      have "y * of_int c = 0" using True by simp
      then have "float_share m t c = Inr 0" by (simp only: fs2 f0)
      then show ?thesis using True by (simp add: py_int_def)
    next
      case F: False
      with c have cp: "1 \<le> c" by simp
      then have cr: "(1::rat) \<le> of_int c" by (metis of_int_1 of_int_le_iff)
      have cu: "(of_int c :: rat) \<le> 33554432"
        using c(2) t(2) by (metis less_le_trans less_imp_le of_int_le_iff of_int_numeral)
      define z :: rat where "z = y * of_int c"
      have yl: "1 / 67108864 \<le> y" using xl y(3) x0 by linarith
      have y2: "y \<le> 2" using x1 y(3) x0 by linarith
      have "y * 1 \<le> y * of_int c" using cr y(2) by (rule mult_left_mono)
      then have "y \<le> z" unfolding z_def by simp
      with yl have zl: "1 / 67108864 \<le> z" by linarith
      have "y * of_int c \<le> 2 * 33554432" using y2 cu y(2) c(1) by (intro mult_mono) simp_all
      then have zu: "z < 9007199254740992" unfolding z_def by simp
      have z0: "0 < z" using zl by linarith
      have p78: "(2::rat) ^ 78 = 302231454903657293676544" by simp
      have zlo: "4503599627370496 \<le> z * 2 ^ 78" unfolding p78 using zl by linarith
      from py_float_pos [OF z0 zu zlo]
      obtain w where w: "py_float z = Inr w" "0 \<le> w" "\<bar>w - z\<bar> \<le> z / 9007199254740992"
        by auto
      have res: "float_share m t c = Inr w" using w(1) by (simp add: fs2 z_def)
      have c0: "(0::rat) \<le> of_int c" using c(1) by simp
      from share_error [OF x0 x1 c0 y(3) z_def w(3)]
      have err: "\<bar>w - x * of_int c\<bar> \<le> 3 * of_int c / 9007199254740992" .
      have xc: "x * of_int c = (of_int (m * c) / of_int t :: rat)" by (simp add: x_def)
      have tu: "(of_int t :: rat) \<le> 33554432"
        using t(2) by (metis of_int_le_iff of_int_numeral)
      have "(of_int c :: rat) * of_int t \<le> 33554432 * 33554432"
        using cu tu c0 tr by (intro mult_mono) simp_all
      then have "3 * of_int c * (of_int t :: rat) < 9007199254740992" by simp
      then have "3 * (of_int c :: rat) / 9007199254740992 < 1 / of_int t"
        using tr by (simp add: field_simps)
      with err have near: "\<bar>w - of_int (m * c) / of_int t\<bar> < 1 / of_int t"
        unfolding xc by linarith
      from floor_near_quotient [OF t(1) near]
      have fl: "(m * c) div t - 1 \<le> \<lfloor>w\<rfloor>" "\<lfloor>w\<rfloor> \<le> (m * c) div t"
        "(m * c) mod t \<noteq> 0 \<longrightarrow> \<lfloor>w\<rfloor> = (m * c) div t" by simp_all
      have pi: "py_int w = \<lfloor>w\<rfloor>" using w(2) by (simp add: py_int_def)
      have p0: "0 \<le> \<lfloor>w\<rfloor>" using w(2) by simp
      from res fl pi p0 show ?thesis by simp
    qed
  qed
qed

section \<open>Subsampling in fetch_discordant_reads\<close>


lemma update_absent: "k \<notin> fst ` set d \<Longrightarrow> AList.update k v d = d @ [(k, v)]"
  by (induction d) auto

lemma subsample_fill_distinct:
  assumes "distinct ks" and "set ks \<subseteq> fst ` set orig" and "set ks \<inter> fst ` set d = {}"
  shows "subsample_fill orig ks d = Inr (d @ map (\<lambda>k. (k, the (map_of orig k))) ks)"
  using assms
proof (induction ks arbitrary: d)
  case Nil
  then show ?case by simp
next
  case (Cons k ks)
  from Cons.prems obtain v where v: "map_of orig k = Some v"
    by (metis list.set_intros(1) map_of_eq_None_iff not_Some_eq subsetD)
  from Cons.prems have kd: "k \<notin> fst ` set d" by auto
  have upd: "AList.update k v d = d @ [(k, v)]" using kd by (rule update_absent)
  have "subsample_fill orig ks (d @ [(k, v)])
      = Inr ((d @ [(k, v)]) @ map (\<lambda>k. (k, the (map_of orig k))) ks)"
    using Cons.prems by (intro Cons.IH) auto
  then show ?case by (simp add: v upd)
qed

lemma subsample_dict_size:
  assumes c: "sample_contract sample" and d: "distinct (map fst orig)"
    and n: "0 \<le> n" "n \<le> int (length orig)"
  shows "\<exists>r. subsample_dict sample orig n = Inr r \<and> int (length r) = n
            \<and> set r \<subseteq> set orig \<and> distinct (map fst r)"
proof (cases "n = 0")
  case True
  then show ?thesis by (simp add: subsample_dict_def)
next
  case False
  let ?ks = "sample (map fst orig) (nat n)"
  from n have le: "nat n \<le> length (map fst orig)" by simp
  from c d le have s: "length ?ks = nat n" "distinct ?ks" "set ?ks \<subseteq> set (map fst orig)"
    unfolding sample_contract_def by blast+
  have sub: "set ?ks \<subseteq> fst ` set orig" using s(3) by simp
  have fill: "subsample_fill orig ?ks [] = Inr ([] @ map (\<lambda>k. (k, the (map_of orig k))) ?ks)"
    using s(2) sub by (intro subsample_fill_distinct) auto
  let ?r = "map (\<lambda>k. (k, the (map_of orig k))) ?ks"
  have r1: "subsample_dict sample orig n = Inr ?r"
    using False n fill by (simp add: subsample_dict_def)
  have r2: "int (length ?r) = n" using s(1) n by simp
  have r3: "set ?r \<subseteq> set orig"
  proof
    fix x assume "x \<in> set ?r"
    then obtain k where k: "k \<in> set ?ks" and x: "x = (k, the (map_of orig k))" by auto
    from k sub obtain v where "(k, v) \<in> set orig" by auto
    with d have "map_of orig k = Some v" by simp
    with x \<open>(k, v) \<in> set orig\<close> show "x \<in> set orig" by simp
  qed
  have r4: "distinct (map fst ?r)" using s(2) by (simp add: comp_def)
  from r1 r2 r3 r4 show ?thesis by blast
qed

lemma split_floor_sum:
  fixes a b c t :: int
  assumes t: "0 < t" and ab: "a + b = t * c"
  shows "a div t + b div t \<le> c \<and> c - 1 \<le> a div t + b div t
         \<and> (a mod t = 0 \<longrightarrow> b mod t = 0 \<and> a div t + b div t = c)
         \<and> (a mod t \<noteq> 0 \<longrightarrow> b mod t \<noteq> 0 \<and> a div t + b div t = c - 1)"
proof -
  define k where "k = c - a div t - b div t"
  have ra: "0 \<le> a mod t" "a mod t < t" using t by simp_all
  have rb: "0 \<le> b mod t" "b mod t < t" using t by simp_all
  have "t * (a div t) + a mod t + (t * (b div t) + b mod t) = t * c"
    using ab by simp
  then have tk: "t * k = a mod t + b mod t"
    by (simp add: k_def algebra_simps)
  from tk ra rb have "0 \<le> t * k" by simp
  with t have k0: "0 \<le> k" by (simp add: zero_le_mult_iff)
  have "a mod t + b mod t < t + t" using ra(2) rb(2) by (rule add_strict_mono)
  with tk have "t * k < t * 2" by simp
  with t have k2: "k < 2" by (simp add: mult_less_cancel_left_pos)
  have z: "b mod t = 0 \<and> k = 0" if "a mod t = 0"
  proof -
    from tk that have e: "t * k = b mod t" by simp
    with rb(2) have "t * k < t * 1" by simp
    with t have "k < 1" by (simp only: mult_less_cancel_left_pos)
    with k0 have "k = 0" by simp
    with e show ?thesis by simp
  qed
  have nz: "b mod t \<noteq> 0 \<and> k = 1" if "a mod t \<noteq> 0"
  proof -
    from that ra(1) have ap: "0 < a mod t" by simp
    have "k \<noteq> 0"
    proof
      assume "k = 0"
      with tk have "a mod t + b mod t = 0" by simp
      with ap rb(1) show False by linarith
    qed
    with k0 k2 have k1: "k = 1" by simp
    with tk have "b mod t = t - a mod t" by simp
    with ra(2) have "b mod t \<noteq> 0" by simp
    with k1 show ?thesis by simp
  qed
  from k0 k2 z nz show ?thesis unfolding k_def by auto
qed

lemma share_le_size:
  fixes m u c :: int
  assumes "0 \<le> m" "0 \<le> u" "0 < m + u" "c \<le> m + u"
  shows "(m * c) div (m + u) \<le> m"
proof -
  have "m * c \<le> m * (m + u)" using assms by (intro mult_left_mono) auto
  then have "(m * c) div (m + u) \<le> (m * (m + u)) div (m + u)"
    using assms(3) by (rule zdiv_mono1)
  also have "\<dots> = m" using assms(3) by simp
  finally show ?thesis .
qed

text \<open>
  Claim C6, amended. When the two buckets of one alignment file hold more reads than
  the cap \<open>max_fetch\<close> (not negative), and at most \<open>2 ^ 25\<close> reads, the subsampling
  returns, and each bucket is subsampled to \<^verbatim>\<open>int()\<close> of its share computed in
  floats: the integer part of the exact proportional share
  \<open>len(bucket) * max_fetch / total\<close>, or one less. The reads kept are reads of the
  bucket, each once. The total kept is at most the cap and at least the cap minus
  two, and it is the cap minus one whenever the exact shares are not whole numbers:
  it need not equal the cap.
\<close>


theorem fetch_discordant_subsample_counts:
  assumes c: "sample_contract sample"
    and dm: "distinct (map fst bam_mapped)" and du: "distinct (map fst bam_unmapped)"
    and cap: "0 \<le> max_fetch"
    and over: "int (length bam_mapped) + int (length bam_unmapped) > max_fetch"
    and size: "int (length bam_mapped) + int (length bam_unmapped) \<le> 33554432"
  shows "\<exists>bm bu.
      fetch_discordant_subsample sample bam_mapped bam_unmapped max_fetch = Inr (bm, bu)
      \<and> (int (length bam_mapped) * max_fetch)
            div (int (length bam_mapped) + int (length bam_unmapped)) - 1 \<le> int (length bm)
      \<and> int (length bm) \<le> (int (length bam_mapped) * max_fetch)
            div (int (length bam_mapped) + int (length bam_unmapped))
      \<and> (int (length bam_unmapped) * max_fetch)
            div (int (length bam_mapped) + int (length bam_unmapped)) - 1 \<le> int (length bu)
      \<and> int (length bu) \<le> (int (length bam_unmapped) * max_fetch)
            div (int (length bam_mapped) + int (length bam_unmapped))
      \<and> int (length bm) + int (length bu) \<le> max_fetch
      \<and> max_fetch - 2 \<le> int (length bm) + int (length bu)
      \<and> ((int (length bam_mapped) * max_fetch)
            mod (int (length bam_mapped) + int (length bam_unmapped)) \<noteq> 0
          \<longrightarrow> int (length bm) + int (length bu) = max_fetch - 1)
      \<and> set bm \<subseteq> set bam_mapped \<and> set bu \<subseteq> set bam_unmapped
      \<and> distinct (map fst bm) \<and> distinct (map fst bu)"
proof -
  let ?m = "int (length bam_mapped)"
  let ?u = "int (length bam_unmapped)"
  let ?t = "?m + ?u"
  have m0: "0 \<le> ?m" and u0: "0 \<le> ?u" by simp_all
  have t0: "0 < ?t" using cap over by simp
  have ct: "max_fetch < ?t" using over by simp
  have mt: "?m \<le> ?t" and ut: "?u \<le> ?t" by simp_all
  let ?a = "(?m * max_fetch) div ?t"
  let ?b = "(?u * max_fetch) div ?t"
  from float_share_bounds [OF m0 mt t0 size cap ct]
  obtain wm where wm0: "float_share ?m ?t max_fetch = Inr wm \<and> 0 \<le> py_int wm
      \<and> ?a - 1 \<le> py_int wm \<and> py_int wm \<le> ?a
      \<and> ((?m * max_fetch) mod ?t \<noteq> 0 \<longrightarrow> py_int wm = ?a)" ..
  note wm = wm0 [THEN conjunct1] wm0 [THEN conjunct2, THEN conjunct1]
    wm0 [THEN conjunct2, THEN conjunct2, THEN conjunct1]
    wm0 [THEN conjunct2, THEN conjunct2, THEN conjunct2, THEN conjunct1]
    wm0 [THEN conjunct2, THEN conjunct2, THEN conjunct2, THEN conjunct2]
  from float_share_bounds [OF u0 ut t0 size cap ct]
  obtain wu where wu0: "float_share ?u ?t max_fetch = Inr wu \<and> 0 \<le> py_int wu
      \<and> ?b - 1 \<le> py_int wu \<and> py_int wu \<le> ?b
      \<and> ((?u * max_fetch) mod ?t \<noteq> 0 \<longrightarrow> py_int wu = ?b)" ..
  note wu = wu0 [THEN conjunct1] wu0 [THEN conjunct2, THEN conjunct1]
    wu0 [THEN conjunct2, THEN conjunct2, THEN conjunct1]
    wu0 [THEN conjunct2, THEN conjunct2, THEN conjunct2, THEN conjunct1]
    wu0 [THEN conjunct2, THEN conjunct2, THEN conjunct2, THEN conjunct2]
  have le: "max_fetch \<le> ?t" using ct by simp
  have am: "?a \<le> ?m" using m0 u0 t0 le by (rule share_le_size)
  have "(?u * max_fetch) div (?u + ?m) \<le> ?u"
    using u0 m0 by (rule share_le_size) (use t0 le in simp_all)
  then have bu: "?b \<le> ?u" by (simp only: add.commute)
  have nm: "py_int wm \<le> ?m" using wm(4) am by (rule order_trans)
  have nu: "py_int wu \<le> ?u" using wu(4) bu by (rule order_trans)
  from subsample_dict_size [OF c dm wm(2) nm]
  obtain bm where bm0: "subsample_dict sample bam_mapped (py_int wm) = Inr bm
      \<and> int (length bm) = py_int wm \<and> set bm \<subseteq> set bam_mapped \<and> distinct (map fst bm)" ..
  note bm = bm0 [THEN conjunct1] bm0 [THEN conjunct2, THEN conjunct1]
    bm0 [THEN conjunct2, THEN conjunct2, THEN conjunct1]
    bm0 [THEN conjunct2, THEN conjunct2, THEN conjunct2]
  from subsample_dict_size [OF c du wu(2) nu]
  obtain bu' where bu0: "subsample_dict sample bam_unmapped (py_int wu) = Inr bu'
      \<and> int (length bu') = py_int wu \<and> set bu' \<subseteq> set bam_unmapped \<and> distinct (map fst bu')" ..
  note bu' = bu0 [THEN conjunct1] bu0 [THEN conjunct2, THEN conjunct1]
    bu0 [THEN conjunct2, THEN conjunct2, THEN conjunct1]
    bu0 [THEN conjunct2, THEN conjunct2, THEN conjunct2]
  have res: "fetch_discordant_subsample sample bam_mapped bam_unmapped max_fetch = Inr (bm, bu')"
    using over by (simp add: fetch_discordant_subsample_def Let_def wm(1) wu(1) bm(1) bu'(1))
  have sum: "?m * max_fetch + ?u * max_fetch = ?t * max_fetch"
    by (simp only: distrib_right)
  note s0 = split_floor_sum [OF t0 sum]
  note s = s0 [THEN conjunct1] s0 [THEN conjunct2, THEN conjunct1]
    s0 [THEN conjunct2, THEN conjunct2, THEN conjunct1]
    s0 [THEN conjunct2, THEN conjunct2, THEN conjunct2]
  have g1: "?a - 1 \<le> int (length bm)" using wm(3) by (simp only: bm(2))
  have g2: "int (length bm) \<le> ?a" using wm(4) by (simp only: bm(2))
  have g3: "?b - 1 \<le> int (length bu')" using wu(3) by (simp only: bu'(2))
  have g4: "int (length bu') \<le> ?b" using wu(4) by (simp only: bu'(2))
  have g5: "int (length bm) + int (length bu') \<le> max_fetch" using g2 g4 s(1) by linarith
  have g7: "int (length bm) + int (length bu') = max_fetch - 1"
    if nz: "(?m * max_fetch) mod ?t \<noteq> 0"
  proof -
    from s(4) nz have z: "(?u * max_fetch) mod ?t \<noteq> 0" "?a + ?b = max_fetch - 1"
      by (rule mp [THEN conjunct1], rule mp [THEN conjunct2])
    from wm(5) nz have "py_int wm = ?a" by (rule mp)
    moreover from wu(5) z(1) have "py_int wu = ?b" by (rule mp)
    ultimately show ?thesis using z(2) by (simp only: bm(2) bu'(2))
  qed
  have g6: "max_fetch - 2 \<le> int (length bm) + int (length bu')"
  proof (cases "(?m * max_fetch) mod ?t = 0")
    case True
    from s(3) True have "?a + ?b = max_fetch" by (rule mp [THEN conjunct2])
    with g1 g3 show ?thesis by linarith
  next
    case False
    then have "int (length bm) + int (length bu') = max_fetch - 1" by (rule g7)
    then show ?thesis by linarith
  qed
  from g7 have g7': "(?m * max_fetch) mod ?t \<noteq> 0
      \<longrightarrow> int (length bm) + int (length bu') = max_fetch - 1" by (rule impI)
  from res g1 g2 g3 g4 g5 g6 g7' bm(3) bu'(3) bm(4) bu'(4)
  show ?thesis by (intro exI [of _ bm] exI [of _ bu'] conjI) assumption+
qed

lemma reads_numbered_length: "length (reads_numbered a n) = n"
  by (simp add: reads_numbered_def)

lemma reads_numbered_distinct: "distinct (map fst (reads_numbered a n))"
proof -
  have "inj_on (\<lambda>i. replicate i CHR ''r'') (set [a ..< a + n])"
    by (rule inj_onI) (metis length_replicate)
  then show ?thesis by (simp add: reads_numbered_def comp_def distinct_map)
qed

lemma sample_first_contract: "sample_contract sample_first"
  by (auto simp: sample_contract_def sample_first_def dest: in_set_takeD)

lemma share_58: "float_share 58 100 50 = Inr (8162774324609023 / 281474976710656)"
  by code_simp

lemma share_42: "float_share 42 100 50 = Inr 21"
  by code_simp

lemma py_int_share_58: "py_int (8162774324609023 / 281474976710656) = 28"
  by code_simp

lemma py_int_share_42: "py_int 21 = 21"
  by code_simp

text \<open>
  The theorem at the default cap of 50 with 42 mate-mapped and 58 mate-unmapped
  reads. The exact shares are 21 and 29; the float product \<^verbatim>\<open>(58 / 100.0) * 50\<close> is
  \<^verbatim>\<open>28.999999999999996\<close>, so 21 and 28 reads are kept, 49 in all.
\<close>

theorem fetch_discordant_subsample_counts_witness:
  "sample_contract sample_first
   \<and> distinct (map fst bucket_42) \<and> distinct (map fst bucket_58)
   \<and> (0::int) \<le> 50
   \<and> int (length bucket_42) + int (length bucket_58) > 50
   \<and> int (length bucket_42) + int (length bucket_58) \<le> 33554432
   \<and> (\<exists>bm bu. fetch_discordant_subsample sample_first bucket_42 bucket_58 50 = Inr (bm, bu)
          \<and> length bm = 21 \<and> length bu = 28)"
proof -
  have h1: "sample_contract sample_first" by (rule sample_first_contract)
  have h2: "distinct (map fst bucket_42)" unfolding bucket_42_def by (rule reads_numbered_distinct)
  have h3: "distinct (map fst bucket_58)" unfolding bucket_58_def by (rule reads_numbered_distinct)
  have h4: "(0::int) \<le> 50" by simp
  have l42: "int (length bucket_42) = 42" by (simp add: bucket_42_def reads_numbered_length)
  have l58: "int (length bucket_58) = 58" by (simp add: bucket_58_def reads_numbered_length)
  have h5: "int (length bucket_42) + int (length bucket_58) > 50" by (simp add: l42 l58)
  have h6: "int (length bucket_42) + int (length bucket_58) \<le> 33554432" by (simp add: l42 l58)
  from fetch_discordant_subsample_counts [OF h1 h2 h3 h4 h5 h6]
  obtain bm bu where
    r0: "fetch_discordant_subsample sample_first bucket_42 bucket_58 50 = Inr (bm, bu)
      \<and> (int (length bucket_42) * 50) div (int (length bucket_42) + int (length bucket_58)) - 1
            \<le> int (length bm)
      \<and> int (length bm) \<le> (int (length bucket_42) * 50)
            div (int (length bucket_42) + int (length bucket_58))
      \<and> (int (length bucket_58) * 50) div (int (length bucket_42) + int (length bucket_58)) - 1
            \<le> int (length bu)
      \<and> int (length bu) \<le> (int (length bucket_58) * 50)
            div (int (length bucket_42) + int (length bucket_58))
      \<and> int (length bm) + int (length bu) \<le> 50
      \<and> 50 - 2 \<le> int (length bm) + int (length bu)
      \<and> ((int (length bucket_42) * 50)
            mod (int (length bucket_42) + int (length bucket_58)) \<noteq> 0
          \<longrightarrow> int (length bm) + int (length bu) = 50 - 1)
      \<and> set bm \<subseteq> set bucket_42 \<and> set bu \<subseteq> set bucket_58
      \<and> distinct (map fst bm) \<and> distinct (map fst bu)"
    by (elim exE)
  note r = r0 [THEN conjunct1]
  have n1: "(0::int) \<le> 21" "21 \<le> int (length bucket_42)" by (simp_all add: l42)
  have n2: "(0::int) \<le> 28" "28 \<le> int (length bucket_58)" by (simp_all add: l58)
  from subsample_dict_size [OF h1 h2 n1]
  obtain b1 where b1: "subsample_dict sample_first bucket_42 21 = Inr b1 \<and> int (length b1) = 21
      \<and> set b1 \<subseteq> set bucket_42 \<and> distinct (map fst b1)" ..
  from subsample_dict_size [OF h1 h3 n2]
  obtain b2 where b2: "subsample_dict sample_first bucket_58 28 = Inr b2 \<and> int (length b2) = 28
      \<and> set b2 \<subseteq> set bucket_58 \<and> distinct (map fst b2)" ..
  have e: "fetch_discordant_subsample sample_first bucket_42 bucket_58 50 = Inr (b1, b2)"
    by (simp add: fetch_discordant_subsample_def Let_def l42 l58 share_42 share_58
        py_int_share_42 py_int_share_58 b1 [THEN conjunct1] b2 [THEN conjunct1])
  from r e have "bm = b1" "bu = b2" by simp_all
  with b1 b2 have "length bm = 21" "length bu = 28" by simp_all
  with r have "\<exists>bm bu. fetch_discordant_subsample sample_first bucket_42 bucket_58 50 = Inr (bm, bu)
          \<and> length bm = 21 \<and> length bu = 28" by blast
  with h1 h2 h3 h4 h5 h6 show ?thesis by (intro conjI)
qed

text \<open>
  As stated, the claim fails: with one mapped and two unmapped reads and a cap of 2
  the shares are 2/3 and 4/3, and one read is kept in all, not two.
\<close>

theorem fetch_discordant_subsample_below_cap:
  "int (length bucket_1) + int (length bucket_2) = 3
   \<and> fetch_discordant_subsample sample_first bucket_1 bucket_2 2 = Inr ([], [(''r2'', 2)])
   \<and> length ([] :: (string \<times> nat) list) + length [(''r2'', 2::nat)] = 1"
  by code_simp

end
